theory Spec2Isabelle
  imports Main
begin

section \<open>Values, errors and dictionaries\<close>

text \<open>
  The operator handles parsed JSON (the body of every response) and plain Python values
  (its constructor arguments). Both are modelled by one datatype. A Python \<open>dict\<close> keeps
  its keys in insertion order, so a dictionary is an association list; a dictionary
  built by the JSON parser has no duplicate key, and every operation below reads and
  writes the first binding of a key. Strings are \<open>string\<close>, i.e. ASCII text. Numbers
  are the integers (the identifiers and counters of the API); \<open>None\<close> is \<open>JNull\<close>.
\<close>

datatype json =
    JNull
  | JBool bool
  | JNum int
  | JStr string
  | JArr "json list"
  | JObj "(string \<times> json) list"

text \<open>
  Every exception of the source is a value. \<open>UnsupportedObject\<close> is the
  \<open>Exception\<close> raised by the constructor; \<open>HTTPError\<close> and \<open>ValueError\<close> are what the
  hook's \<open>run\<close> and the response's \<open>json()\<close> raise (transport and parse failures); the
  others are the built-in exceptions of the operations on values.
\<close>

datatype error =
    UnsupportedObject
  | KeyError
  | TypeError
  | AttributeError
  | HTTPError
  | ValueError

type_synonym dict = "(string \<times> json) list"

fun dict_set :: "string \<Rightarrow> json \<Rightarrow> dict \<Rightarrow> dict" where
  "dict_set k v [] = [(k, v)]"
| "dict_set k v ((k', v') # d) =
     (if k' = k then (k, v) # d else (k', v') # dict_set k v d)"

fun dict_del :: "string \<Rightarrow> dict \<Rightarrow> dict" where
  "dict_del k [] = []"
| "dict_del k ((k', v') # d) =
     (if k' = k then dict_del k d else (k', v') # dict_del k d)"

text \<open>\<open>x.keys()\<close>: only a dictionary has the method.\<close>

fun py_keys :: "json \<Rightarrow> error + string list" where
  "py_keys (JObj d) = Inr (map fst d)"
| "py_keys _ = Inl AttributeError"

text \<open>\<open>x[k]\<close> with a string \<open>k\<close>: a lookup in a dictionary, a \<open>TypeError\<close> elsewhere.\<close>

fun py_getitem :: "json \<Rightarrow> string \<Rightarrow> error + json" where
  "py_getitem (JObj d) k = (case map_of d k of None \<Rightarrow> Inl KeyError | Some v \<Rightarrow> Inr v)"
| "py_getitem _ k = Inl TypeError"

text \<open>\<open>x[k] = v\<close>: an existing key keeps its place, a new key goes to the end.\<close>

fun py_setitem :: "json \<Rightarrow> string \<Rightarrow> json \<Rightarrow> error + json" where
  "py_setitem (JObj d) k v = Inr (JObj (dict_set k v d))"
| "py_setitem _ k v = Inl TypeError"

text \<open>\<open>del x[k]\<close>.\<close>

fun py_delitem :: "json \<Rightarrow> string \<Rightarrow> error + json" where
  "py_delitem (JObj d) k =
     (if k \<in> set (map fst d) then Inr (JObj (dict_del k d)) else Inl KeyError)"
| "py_delitem _ k = Inl TypeError"

section \<open>filterMapper\<close>

record entry =
  name :: string
  filtered :: string
  retained :: "string list option"

definition mapping :: "entry list" where
  "mapping =
    [\<lparr>name = ''commits'', filtered = ''author'', retained = Some [''id'']\<rparr>,
     \<lparr>name = ''commits'', filtered = ''committer'', retained = Some [''id'']\<rparr>,
     \<lparr>name = ''issues'', filtered = ''labels'', retained = None\<rparr>,
     \<lparr>name = ''issue_comments'', filtered = ''user'', retained = Some [''id'']\<rparr>,
     \<lparr>name = ''commit_comments'', filtered = ''user'', retained = Some [''id'']\<rparr>,
     \<lparr>name = ''repositories'', filtered = ''owner'', retained = Some [''id'']\<rparr>,
     \<lparr>name = ''pull_requests'', filtered = ''assignee'', retained = Some [''id'']\<rparr>,
     \<lparr>name = ''pull_requests'', filtered = ''milestone'', retained = Some [''id'']\<rparr>,
     \<lparr>name = ''pull_requests'', filtered = ''head'', retained = Some [''label'']\<rparr>,
     \<lparr>name = ''pull_requests'', filtered = ''base'', retained = Some [''label'']\<rparr>,
     \<lparr>name = ''pull_requests'', filtered = ''user'', retained = Some [''id'']\<rparr>]"

text \<open>
  The body of the inner loop of \<open>process\<close>, for one \<open>retained_item\<close>: when the value under
  the filtered key is not \<open>None\<close> and has the retained key, that value is stored at the
  top level under \<open>"{0}_{1}".format(filtered, retained_item)\<close>.
\<close>

definition retain_item :: "entry \<Rightarrow> string \<Rightarrow> json \<Rightarrow> error + json" where
  "retain_item e retained_item record =
     (case py_getitem record (filtered e) of
        Inl err \<Rightarrow> Inl err
      | Inr v \<Rightarrow>
          if v \<noteq> JNull then
            (case py_keys v of
               Inl err \<Rightarrow> Inl err
             | Inr ks \<Rightarrow>
                 if retained_item \<in> set ks then
                   (case py_getitem v retained_item of
                      Inl err \<Rightarrow> Inl err
                    | Inr x \<Rightarrow> py_setitem record (filtered e @ ''_'' @ retained_item) x)
                 else Inr record)
          else Inr record)"

fun retain_loop :: "entry \<Rightarrow> string list \<Rightarrow> json \<Rightarrow> error + json" where
  "retain_loop e [] record = Inr record"
| "retain_loop e (retained_item # items) record =
     (case retain_item e retained_item record of
        Inl err \<Rightarrow> Inl err
      | Inr record' \<Rightarrow> retain_loop e items record')"

text \<open>
  The body of the outer loop, for one entry of the table. \<open>and\<close> short-circuits:
  \<open>record.keys()\<close> is only called when the entry's name is the operator's
  \<open>github_object\<close>. \<open>if entry['retained']\<close> is false for \<open>None\<close> and for an empty list;
  the loop over an empty list does nothing, so both are the case \<open>[]\<close> here. The field is
  deleted under the guard \<open>record[entry['filtered']] is not None\<close>.
\<close>

definition process_entry :: "string \<Rightarrow> entry \<Rightarrow> json \<Rightarrow> error + json" where
  "process_entry github_object e record =
     (if name e = github_object then
        (case py_keys record of
           Inl err \<Rightarrow> Inl err
         | Inr ks \<Rightarrow>
             if filtered e \<in> set ks then
               (case retain_loop e (case retained e of None \<Rightarrow> [] | Some items \<Rightarrow> items) record of
                  Inl err \<Rightarrow> Inl err
                | Inr record' \<Rightarrow>
                    (case py_getitem record' (filtered e) of
                       Inl err \<Rightarrow> Inl err
                     | Inr v \<Rightarrow>
                         if v \<noteq> JNull then py_delitem record' (filtered e)
                         else Inr record'))
             else Inr record)
      else Inr record)"

fun process :: "string \<Rightarrow> json \<Rightarrow> entry list \<Rightarrow> error + json" where
  "process github_object record [] = Inr record"
| "process github_object record (e # es) =
     (case process_entry github_object e record of
        Inl err \<Rightarrow> Inl err
      | Inr record' \<Rightarrow> process github_object record' es)"

definition filterMapper :: "string \<Rightarrow> json \<Rightarrow> error + json" where
  "filterMapper github_object record = process github_object record mapping"

fun filter_all :: "string \<Rightarrow> json list \<Rightarrow> error + json list" where
  "filter_all github_object [] = Inr []"
| "filter_all github_object (record # records) =
     (case filterMapper github_object record of
        Inl err \<Rightarrow> Inl err
      | Inr record' \<Rightarrow>
          (case filter_all github_object records of
             Inl err \<Rightarrow> Inl err
           | Inr records' \<Rightarrow> Inr (record' # records')))"

section \<open>The operator\<close>

text \<open>
  The fields that the methods below read. \<open>github_repo\<close> is \<open>None\<close>, a string or a list;
  \<open>payload\<close> is a dictionary. The connection ids, the destination, the bucket and the
  key are stored by the constructor and read only by \<open>output_manager\<close>.
\<close>

record operator =
  github_org :: json
  github_repo :: json
  github_object :: string
  payload :: dict

text \<open>\<open>str.lower()\<close> on ASCII text: the 26 capital letters change, nothing else does.\<close>

definition lower_char :: "char \<Rightarrow> char" where
  "lower_char c =
     (case map_of (zip ''ABCDEFGHIJKLMNOPQRSTUVWXYZ'' ''abcdefghijklmnopqrstuvwxyz'') c of
        Some c' \<Rightarrow> c'
      | None \<Rightarrow> c)"

definition lower :: "string \<Rightarrow> string" where
  "lower s = map lower_char s"

definition supported :: "string list" where
  "supported =
     [''commits'', ''commit_comments'', ''issue_comments'', ''issues'',
      ''members'', ''organizations'', ''pull_requests'', ''repositories'']"

text \<open>\<open>__init__\<close>: the object's name is checked in lower case and stored as given.\<close>

definition init :: "json \<Rightarrow> string \<Rightarrow> json \<Rightarrow> dict \<Rightarrow> error + operator" where
  "init org obj repo pl =
     (if lower obj \<notin> set supported then Inl UnsupportedObject
      else Inr \<lparr>github_org = org, github_repo = repo, github_object = obj, payload = pl\<rparr>)"

text \<open>
  An endpoint is the result of \<open>template.format(args)\<close>. The model keeps the template and
  the arguments: the text is a function of the two, and nothing in the operator reads it.
\<close>

datatype endpoint = Format string "json list"

definition methodMapper :: "operator \<Rightarrow> string \<Rightarrow> json \<Rightarrow> json \<Rightarrow> error + endpoint" where
  "methodMapper self obj org repo =
     (case map_of
        [(''commits'', Format ''repos/{0}/{1}/commits'' [org, repo]),
         (''commit_comments'', Format ''repos/{0}/{1}/comments'' [org, repo]),
         (''issue_comments'', Format ''repos/{0}/{1}/issues/comments'' [org, repo]),
         (''issues'', Format ''repos/{0}/{1}/issues'' [org, repo]),
         (''members'', Format ''orgs/{0}/members'' [org]),
         (''organizations'', Format ''user/organizations'' []),
         (''pull_requests'', Format ''repos/{0}/{1}/pulls'' [org, repo]),
         (''repositories'', Format ''orgs/{0}/repos'' [github_org self])] obj of
        None \<Rightarrow> Inl KeyError
      | Some e \<Rightarrow> Inr e)"

section \<open>The hook\<close>

text \<open>
  Modelled from the spec: the class of the hook (\<open>github_plugin.hooks.github_hook\<close>) is not
  among the sources; the specification calls it the fetch capability, which is given a
  path and query parameters and returns a parsed JSON value or fails.
  \<open>g.run(endpoint, final_payload).json()\<close> is the one network call of the operator. What
  the server answers may depend on the request and on everything asked before (a failure
  can be transient), so the hook is a function of the log of the earlier requests and of
  the request; it answers with a parsed body or fails. The log is the state threaded
  through the model, and its length is the number of calls made.
\<close>

type_synonym request = "endpoint \<times> dict"

type_synonym hook = "request list \<Rightarrow> request \<Rightarrow> error + json"

definition run_json :: "hook \<Rightarrow> endpoint \<Rightarrow> dict \<Rightarrow> request list \<Rightarrow> (error + json) \<times> request list" where
  "run_json g endpoint data log = (g log (endpoint, data), log @ [(endpoint, data)])"

section \<open>paginate_data\<close>

text \<open>\<open>output.extend(x)\<close> iterates \<open>x\<close>: a list gives its elements, a dictionary its keys, a
  string its characters; \<open>None\<close>, a number and a boolean are not iterable.\<close>

fun py_iter :: "json \<Rightarrow> error + json list" where
  "py_iter (JArr xs) = Inr xs"
| "py_iter (JObj d) = Inr (map (\<lambda>kv. JStr (fst kv)) d)"
| "py_iter (JStr s) = Inr (map (\<lambda>c. JStr [c]) s)"
| "py_iter _ = Inl TypeError"

definition py_extend :: "json list \<Rightarrow> json \<Rightarrow> error + json list" where
  "py_extend output x = (case py_iter x of Inl err \<Rightarrow> Inl err | Inr xs \<Rightarrow> Inr (output @ xs))"

fun py_len :: "json \<Rightarrow> error + nat" where
  "py_len (JArr xs) = Inr (length xs)"
| "py_len (JObj d) = Inr (length d)"
| "py_len (JStr s) = Inr (length s)"
| "py_len _ = Inl TypeError"

text \<open>\<open>x * y\<close>: a product of numbers (a boolean counts as 0 or 1), or the repetition of
  a string or a list; a \<open>TypeError\<close> elsewhere.\<close>

fun as_int :: "json \<Rightarrow> int option" where
  "as_int (JNum n) = Some n"
| "as_int (JBool b) = Some (if b then 1 else 0)"
| "as_int _ = None"

fun repeat :: "int \<Rightarrow> json \<Rightarrow> error + json" where
  "repeat n (JStr s) = Inr (JStr (concat (replicate (nat n) s)))"
| "repeat n (JArr xs) = Inr (JArr (concat (replicate (nat n) xs)))"
| "repeat n _ = Inl TypeError"

definition py_mul :: "json \<Rightarrow> json \<Rightarrow> error + json" where
  "py_mul x y =
     (case (as_int x, as_int y) of
        (Some m, Some n) \<Rightarrow> Inr (JNum (m * n))
      | (Some m, None) \<Rightarrow> repeat m y
      | (None, Some n) \<Rightarrow> repeat n x
      | (None, None) \<Rightarrow> Inl TypeError)"

text \<open>\<open>x += 1\<close>.\<close>

definition add_one :: "json \<Rightarrow> error + json" where
  "add_one x = (case as_int x of Some n \<Rightarrow> Inr (JNum (n + 1)) | None \<Rightarrow> Inl TypeError)"

text \<open>
  \<open>final_payload\<close> before the first request: the two defaults, then every item of the
  operator's payload stored on top (a dictionary has one value per key, so the loop over
  its keys is the loop over its items).
\<close>

definition initial_payload :: "operator \<Rightarrow> dict" where
  "initial_payload self =
     fold (\<lambda>(param, v). dict_set param v) (payload self)
       [(''per_page'', JNum 100), (''page'', JNum 1)]"

text \<open>The argument of the \<open>logging.info\<close> line; the line itself has no effect here, but
  its product can raise.\<close>

definition retrieved :: "dict \<Rightarrow> error + json" where
  "retrieved final_payload =
     (case py_getitem (JObj final_payload) ''per_page'' of
        Inl err \<Rightarrow> Inl err
      | Inr n \<Rightarrow>
          (case py_getitem (JObj final_payload) ''page'' of
             Inl err \<Rightarrow> Inl err
           | Inr p \<Rightarrow> py_mul n p))"

text \<open>\<open>final_payload['page'] += 1\<close>.\<close>

definition next_page :: "dict \<Rightarrow> error + dict" where
  "next_page final_payload =
     (case py_getitem (JObj final_payload) ''page'' of
        Inl err \<Rightarrow> Inl err
      | Inr p \<Rightarrow>
          (case add_one p of
             Inl err \<Rightarrow> Inl err
           | Inr p' \<Rightarrow> Inr (dict_set ''page'' p' final_payload)))"

text \<open>
  The \<open>while\<close> loop. It need not end (a server can answer every request with 100
  records), so the result is an option and \<open>None\<close> is the run that never returns. The
  state is \<open>final_payload\<close>, \<open>response\<close>, \<open>output\<close> and the log. The bound is the literal 100
  of the source, whatever \<open>per_page\<close> the request carries.
\<close>

partial_function (option) paginate_loop ::
  "hook \<Rightarrow> endpoint \<Rightarrow> dict \<Rightarrow> json \<Rightarrow> json list \<Rightarrow> request list \<Rightarrow>
   ((error + json list) \<times> request list) option" where
  "paginate_loop g endpoint final_payload response output log =
     (case py_len response of
        Inl err \<Rightarrow> Some (Inl err, log)
      | Inr n \<Rightarrow>
          if n = 100 then
            (case next_page final_payload of
               Inl err \<Rightarrow> Some (Inl err, log)
             | Inr final_payload' \<Rightarrow>
                 (case run_json g endpoint final_payload' log of
                    (Inl err, log') \<Rightarrow> Some (Inl err, log')
                  | (Inr response', log') \<Rightarrow>
                      (case retrieved final_payload' of
                         Inl err \<Rightarrow> Some (Inl err, log')
                       | Inr _ \<Rightarrow>
                           (case py_extend output response' of
                              Inl err \<Rightarrow> Some (Inl err, log')
                            | Inr output' \<Rightarrow>
                                paginate_loop g endpoint final_payload' response' output' log'))))
          else Some (Inr output, log))"

declare paginate_loop.simps [code]

definition paginate_data ::
  "operator \<Rightarrow> hook \<Rightarrow> endpoint \<Rightarrow> request list \<Rightarrow>
   ((error + json list) \<times> request list) option" where
  "paginate_data self g endpoint log =
     (let final_payload = initial_payload self in
      case run_json g endpoint final_payload log of
        (Inl err, log') \<Rightarrow> Some (Inl err, log')
      | (Inr response, log') \<Rightarrow>
          (case py_extend [] response of
             Inl err \<Rightarrow> Some (Inl err, log')
           | Inr output \<Rightarrow>
               (case retrieved final_payload of
                  Inl err \<Rightarrow> Some (Inl err, log')
                | Inr _ \<Rightarrow>
                    (case paginate_loop g endpoint final_payload response output log' of
                       None \<Rightarrow> None
                     | Some (Inl err, log'') \<Rightarrow> Some (Inl err, log'')
                     | Some (Inr output', log'') \<Rightarrow>
                         Some (filter_all (github_object self) output', log'')))))"

section \<open>retrieve_data and execute\<close>

text \<open>
  \<open>retrieve_data\<close> catches everything that \<open>methodMapper\<close> and \<open>paginate_data\<close> raise and
  returns the empty string; its callers only iterate the result, so the empty string is
  the empty list here. The requests made before the failure stay in the log.
\<close>

definition retrieve_data ::
  "operator \<Rightarrow> hook \<Rightarrow> json \<Rightarrow> request list \<Rightarrow> (json list \<times> request list) option" where
  "retrieve_data self g repo log =
     (case methodMapper self (github_object self) (github_org self) repo of
        Inl err \<Rightarrow> Some ([], log)
      | Inr endpoint \<Rightarrow>
          (case paginate_data self g endpoint log of
             None \<Rightarrow> None
           | Some (Inl err, log') \<Rightarrow> Some ([], log')
           | Some (Inr output, log') \<Rightarrow> Some (output, log')))"

text \<open>\<open>for repo in repos: output.extend(self.retrieve_data(g, repo=repo))\<close>.\<close>

fun retrieve_repos ::
  "operator \<Rightarrow> hook \<Rightarrow> json list \<Rightarrow> json list \<Rightarrow> request list \<Rightarrow>
   (json list \<times> request list) option" where
  "retrieve_repos self g [] output log = Some (output, log)"
| "retrieve_repos self g (repo # repos) output log =
     (case retrieve_data self g repo log of
        None \<Rightarrow> None
      | Some (records, log') \<Rightarrow> retrieve_repos self g repos (output @ records) log')"

text \<open>\<open>[repo['name'] for repo in ...]\<close>.\<close>

fun names :: "json list \<Rightarrow> error + json list" where
  "names [] = Inr []"
| "names (repo # repos) =
     (case py_getitem repo ''name'' of
        Inl err \<Rightarrow> Inl err
      | Inr n \<Rightarrow> (case names repos of Inl err \<Rightarrow> Inl err | Inr ns \<Rightarrow> Inr (n # ns)))"

text \<open>
  \<open>execute\<close>, up to the call of \<open>output_manager\<close>: the result is the output handed to it,
  or the exception that left \<open>execute\<close>, with the log of the requests made. The list of
  all repositories is fetched by \<open>paginate_data\<close> directly, not through \<open>retrieve_data\<close>.
\<close>

definition execute ::
  "operator \<Rightarrow> hook \<Rightarrow> request list \<Rightarrow> ((error + json list) \<times> request list) option" where
  "execute self g log =
     (if github_object self \<notin> set [''members'', ''organizations'', ''repositories''] then
        if github_repo self = JStr ''all'' then
          (case methodMapper self ''repositories'' JNull JNull of
             Inl err \<Rightarrow> Some (Inl err, log)
           | Inr endpoint \<Rightarrow>
               (case paginate_data self g endpoint log of
                  None \<Rightarrow> None
                | Some (Inl err, log') \<Rightarrow> Some (Inl err, log')
                | Some (Inr listed, log') \<Rightarrow>
                    (case names listed of
                       Inl err \<Rightarrow> Some (Inl err, log')
                     | Inr repos \<Rightarrow>
                         (case retrieve_repos self g repos [] log' of
                            None \<Rightarrow> None
                          | Some (output, log'') \<Rightarrow> Some (Inr output, log'')))))
        else
          (case github_repo self of
             JArr repos \<Rightarrow>
               (case retrieve_repos self g repos [] log of
                  None \<Rightarrow> None
                | Some (output, log') \<Rightarrow> Some (Inr output, log'))
           | repo \<Rightarrow>
               (case retrieve_data self g repo log of
                  None \<Rightarrow> None
                | Some (output, log') \<Rightarrow> Some (Inr output, log')))
      else
        (case retrieve_data self g (github_repo self) log of
           None \<Rightarrow> None
         | Some (output, log') \<Rightarrow> Some (Inr output, log')))"

text \<open>
  A task of the host: the operator is constructed, and \<open>execute\<close> is called on the
  instance. When the constructor raises there is no instance and nothing is executed.
\<close>

definition run_task ::
  "json \<Rightarrow> string \<Rightarrow> json \<Rightarrow> dict \<Rightarrow> hook \<Rightarrow> request list \<Rightarrow>
   ((error + json list) \<times> request list) option" where
  "run_task org obj repo pl g log =
     (case init org obj repo pl of
        Inl err \<Rightarrow> Some (Inl err, log)
      | Inr self \<Rightarrow> execute self g log)"

section \<open>Notions used in the statements\<close>

text \<open>The keys that an entry of the table can write: its hoisted names.\<close>

definition hoisted :: "entry \<Rightarrow> string list" where
  "hoisted e =
     map (\<lambda>item. filtered e @ ''_'' @ item)
       (case retained e of None \<Rightarrow> [] | Some items \<Rightarrow> items)"

text \<open>What a matching entry leaves under its filtered key: a null stays, anything else
  goes.\<close>

definition after_filter :: "json option \<Rightarrow> json option" where
  "after_filter v = (if v = Some JNull then Some JNull else None)"

text \<open>The request for page \<open>i\<close> of an operator whose payload leaves the two defaults
  alone.\<close>

definition page_request :: "operator \<Rightarrow> endpoint \<Rightarrow> nat \<Rightarrow> request" where
  "page_request self endpoint i =
     (endpoint, (''per_page'', JNum 100) # (''page'', JNum (int i)) # payload self)"

text \<open>The page number a request carries (0 when it carries none), and the parameters of
  the request made \<open>i\<close> steps after the one with parameters \<open>final_payload\<close>.\<close>

definition page_of :: "dict \<Rightarrow> int" where
  "page_of final_payload =
     (case map_of final_payload ''page'' of
        None \<Rightarrow> 0
      | Some v \<Rightarrow> (case as_int v of None \<Rightarrow> 0 | Some p \<Rightarrow> p))"

definition later_payload :: "dict \<Rightarrow> nat \<Rightarrow> dict" where
  "later_payload final_payload i =
     dict_set ''page'' (JNum (page_of final_payload + int i)) final_payload"

text \<open>
  Modelled from the spec: a hook in front of a server that holds a fixed sequence of
  records and serves it in pages. The answer to a request with numbers \<open>page\<close> and
  \<open>per_page\<close> is that slice of the sequence (empty beyond the end). This is the behaviour
  of the remote API that the pagination relies on.
\<close>

definition backend :: "json list \<Rightarrow> hook" where
  "backend records log request =
     (case (map_of (snd request) ''page'', map_of (snd request) ''per_page'') of
        (Some (JNum p), Some (JNum n)) \<Rightarrow>
          if 1 \<le> p \<and> 0 \<le> n
          then Inr (JArr (take (nat n) (drop (nat (p - 1) * nat n) records)))
          else Inl HTTPError
      | _ \<Rightarrow> Inl HTTPError)"

text \<open>A hook that answers the calls of one run with the given bodies in turn, and
  fails afterwards.\<close>

definition serve :: "json list \<Rightarrow> hook" where
  "serve bodies log request =
     (if length log < length bodies then Inr (bodies ! length log) else Inl HTTPError)"

text \<open>
  Pagination as the specification words it (this is not the source's order): the
  records of each page go through the filter as that page is fetched, and the filtered
  records are accumulated. Everything else is as in \<open>paginate_loop\<close> and
  \<open>paginate_data\<close>.
\<close>

definition extend_filtered :: "string \<Rightarrow> json list \<Rightarrow> json \<Rightarrow> error + json list" where
  "extend_filtered obj output x =
     (case py_iter x of
        Inl err \<Rightarrow> Inl err
      | Inr xs \<Rightarrow> (case filter_all obj xs of Inl err \<Rightarrow> Inl err | Inr ys \<Rightarrow> Inr (output @ ys)))"

partial_function (option) paginate_loop_per_page ::
  "string \<Rightarrow> hook \<Rightarrow> endpoint \<Rightarrow> dict \<Rightarrow> json \<Rightarrow> json list \<Rightarrow> request list \<Rightarrow>
   ((error + json list) \<times> request list) option" where
  "paginate_loop_per_page obj g endpoint final_payload response output log =
     (case py_len response of
        Inl err \<Rightarrow> Some (Inl err, log)
      | Inr n \<Rightarrow>
          if n = 100 then
            (case next_page final_payload of
               Inl err \<Rightarrow> Some (Inl err, log)
             | Inr final_payload' \<Rightarrow>
                 (case run_json g endpoint final_payload' log of
                    (Inl err, log') \<Rightarrow> Some (Inl err, log')
                  | (Inr response', log') \<Rightarrow>
                      (case retrieved final_payload' of
                         Inl err \<Rightarrow> Some (Inl err, log')
                       | Inr _ \<Rightarrow>
                           (case extend_filtered obj output response' of
                              Inl err \<Rightarrow> Some (Inl err, log')
                            | Inr output' \<Rightarrow>
                                paginate_loop_per_page obj g endpoint final_payload' response'
                                  output' log'))))
          else Some (Inr output, log))"

declare paginate_loop_per_page.simps [code]

definition paginate_data_per_page ::
  "operator \<Rightarrow> hook \<Rightarrow> endpoint \<Rightarrow> request list \<Rightarrow>
   ((error + json list) \<times> request list) option" where
  "paginate_data_per_page self g endpoint log =
     (let final_payload = initial_payload self in
      case run_json g endpoint final_payload log of
        (Inl err, log') \<Rightarrow> Some (Inl err, log')
      | (Inr response, log') \<Rightarrow>
          (case extend_filtered (github_object self) [] response of
             Inl err \<Rightarrow> Some (Inl err, log')
           | Inr output \<Rightarrow>
               (case retrieved final_payload of
                  Inl err \<Rightarrow> Some (Inl err, log')
                | Inr _ \<Rightarrow>
                    paginate_loop_per_page (github_object self) g endpoint final_payload
                      response output log')))"

section \<open>Sample data\<close>

text \<open>Commit records \<open>a\<close> to \<open>b - 1\<close>, an operator for the commits of an organisation, and
  the commit of the specification's example.\<close>

definition sample :: "nat \<Rightarrow> nat \<Rightarrow> json list" where
  "sample a b = map (\<lambda>i. JObj [(''sha'', JNum (int i))]) [a..<b]"

definition commits_of :: "json \<Rightarrow> operator" where
  "commits_of repo =
     \<lparr>github_org = JStr ''org'', github_repo = repo, github_object = ''commits'', payload = []\<rparr>"

definition commit_example :: json where
  "commit_example =
     JObj [(''sha'', JStr ''abc''),
           (''author'', JObj [(''id'', JNum 7), (''name'', JStr ''x'')]),
           (''committer'', JNull)]"

text \<open>
  The server of the specification's example: the organisation has the repositories
  \<open>r1\<close> and \<open>r2\<close>; the commits of \<open>r1\<close> cannot be fetched, \<open>r2\<close> has two commits.
\<close>

definition two_repos :: hook where
  "two_repos log request =
     (if fst request = Format ''orgs/{0}/repos'' [JStr ''org'']
      then Inr (JArr [JObj [(''name'', JStr ''r1'')], JObj [(''name'', JStr ''r2'')]])
      else if fst request = Format ''repos/{0}/{1}/commits'' [JStr ''org'', JStr ''r1'']
      then Inl HTTPError
      else Inr (JArr (sample 0 2)))"

section \<open>Properties of filterMapper\<close>

lemma map_of_dict_set: "map_of (dict_set k v d) k' = (if k' = k then Some v else map_of d k')"
  by (induction d) auto

lemma map_of_dict_del: "map_of (dict_del k d) k' = (if k' = k then None else map_of d k')"
  by (induction d) auto

lemma key_in_dict: "k \<in> fst ` set d \<longleftrightarrow> map_of d k \<noteq> None"
  by (simp add: map_of_eq_None_iff)

lemma retain_item_obj:
  assumes "retain_item e i (JObj d) = Inr r'"
  shows "\<exists>d'. r' = JObj d' \<and> (\<forall>k. k \<noteq> filtered e @ ''_'' @ i \<longrightarrow> map_of d' k = map_of d k)"
  using assms
  by (auto simp: retain_item_def map_of_dict_set split: option.splits sum.splits if_splits)

lemma retain_item_null:
  "map_of d (filtered e) = Some JNull \<Longrightarrow> retain_item e i (JObj d) = Inr (JObj d)"
  by (simp add: retain_item_def)

lemma retain_loop_obj:
  "retain_loop e items (JObj d) = Inr r' \<Longrightarrow>
   \<exists>d'. r' = JObj d' \<and>
        (\<forall>k. k \<notin> (\<lambda>i. filtered e @ ''_'' @ i) ` set items \<longrightarrow> map_of d' k = map_of d k)"
proof (induction items arbitrary: d)
  case Nil
  then show ?case by auto
next
  case (Cons i items)
  from Cons.prems obtain r1 where r1: "retain_item e i (JObj d) = Inr r1"
    and rest: "retain_loop e items r1 = Inr r'"
    by (auto split: sum.splits)
  from retain_item_obj [OF r1] obtain d1 where d1: "r1 = JObj d1"
    and keep1: "\<forall>k. k \<noteq> filtered e @ ''_'' @ i \<longrightarrow> map_of d1 k = map_of d k"
    by blast
  from Cons.IH [of d1] rest d1 obtain d' where "r' = JObj d'"
    and "\<forall>k. k \<notin> (\<lambda>i. filtered e @ ''_'' @ i) ` set items \<longrightarrow> map_of d' k = map_of d1 k"
    by blast
  with keep1 show ?case by auto
qed

lemma retain_loop_null:
  "map_of d (filtered e) = Some JNull \<Longrightarrow> retain_loop e items (JObj d) = Inr (JObj d)"
  by (induction items) (simp_all add: retain_item_null)

lemma filtered_not_hoisted: "filtered e \<notin> set (hoisted e)"
  by (auto simp: hoisted_def)

lemma process_entry_other:
  "name e \<noteq> obj \<Longrightarrow> process_entry obj e r = Inr r"
  by (simp add: process_entry_def)

lemma process_entry_obj:
  assumes "process_entry obj e (JObj d) = Inr r'" and "name e = obj"
  shows "\<exists>d'. r' = JObj d' \<and>
           (\<forall>k. k \<noteq> filtered e \<and> k \<notin> set (hoisted e) \<longrightarrow> map_of d' k = map_of d k) \<and>
           map_of d' (filtered e) = after_filter (map_of d (filtered e))"
proof (cases "map_of d (filtered e)")
  case None
  then have "filtered e \<notin> fst ` set d" by (simp add: key_in_dict)
  with assms have "r' = JObj d" by (simp add: process_entry_def)
  with None show ?thesis by (simp add: after_filter_def)
next
  case (Some v)
  then have inkeys: "filtered e \<in> fst ` set d" by (simp add: key_in_dict)
  let ?items = "case retained e of None \<Rightarrow> [] | Some items \<Rightarrow> items"
  from assms inkeys obtain r1 where r1: "retain_loop e ?items (JObj d) = Inr r1"
    by (auto simp: process_entry_def split: sum.splits)
  from retain_loop_obj [OF r1] obtain d1 where d1: "r1 = JObj d1"
    and keep: "\<forall>k. k \<notin> (\<lambda>i. filtered e @ ''_'' @ i) ` set ?items \<longrightarrow> map_of d1 k = map_of d k"
    by blast
  have hk: "(\<lambda>i. filtered e @ ''_'' @ i) ` set ?items = set (hoisted e)"
    by (simp add: hoisted_def)
  from keep hk filtered_not_hoisted [of e] Some have v1: "map_of d1 (filtered e) = Some v"
    by simp
  show ?thesis
  proof (cases "v = JNull")
    case True
    with assms inkeys r1 d1 v1 have "r' = JObj d1"
      by (simp add: process_entry_def)
    with keep hk v1 Some True show ?thesis by (simp add: after_filter_def)
  next
    case False
    from v1 have "filtered e \<in> fst ` set d1" by (simp add: key_in_dict)
    with False assms inkeys r1 d1 v1 have "r' = JObj (dict_del (filtered e) d1)"
      by (simp add: process_entry_def)
    with keep hk Some False show ?thesis by (simp add: after_filter_def map_of_dict_del)
  qed
qed

lemma process_entry_non_obj:
  "process_entry obj e r = Inr r' \<Longrightarrow> \<forall>d. r \<noteq> JObj d \<Longrightarrow> r' = r"
  by (cases r) (auto simp: process_entry_def split: if_splits)

lemma process_non_obj:
  "process obj r es = Inr r' \<Longrightarrow> \<forall>d. r \<noteq> JObj d \<Longrightarrow> r' = r"
proof (induction es arbitrary: r)
  case Nil
  then show ?case by simp
next
  case (Cons e es)
  from Cons.prems obtain r1 where r1: "process_entry obj e r = Inr r1"
    and rest: "process obj r1 es = Inr r'"
    by (auto split: sum.splits)
  from process_entry_non_obj [OF r1 Cons.prems(2)] have "r1 = r" .
  with Cons.IH [of r] rest Cons.prems(2) show ?case by simp
qed

lemma after_filter_idem: "after_filter (after_filter v) = after_filter v"
  by (simp add: after_filter_def)

lemma process_obj:
  "process obj (JObj d) es = Inr r' \<Longrightarrow>
   \<exists>d'. r' = JObj d' \<and>
     (\<forall>k. (\<forall>e\<in>set es. name e = obj \<longrightarrow> k \<notin> set (hoisted e)) \<longrightarrow>
        map_of d' k =
          (if \<exists>e\<in>set es. name e = obj \<and> filtered e = k then after_filter (map_of d k)
           else map_of d k))"
proof (induction es arbitrary: d)
  case Nil
  then show ?case by auto
next
  case (Cons e es)
  from Cons.prems obtain r1 where r1: "process_entry obj e (JObj d) = Inr r1"
    and rest: "process obj r1 es = Inr r'"
    by (auto split: sum.splits)
  show ?case
  proof (cases "name e = obj")
    case False
    with r1 have "r1 = JObj d" by (simp add: process_entry_other)
    with Cons.IH [of d] rest False show ?thesis by auto
  next
    case True
    from process_entry_obj [OF r1 True] obtain d1 where d1: "r1 = JObj d1"
      and keep: "\<forall>k. k \<noteq> filtered e \<and> k \<notin> set (hoisted e) \<longrightarrow> map_of d1 k = map_of d k"
      and filt: "map_of d1 (filtered e) = after_filter (map_of d (filtered e))"
      by blast
    from Cons.IH [of d1] rest d1 obtain d' where d': "r' = JObj d'"
      and ih: "\<forall>k. (\<forall>e\<in>set es. name e = obj \<longrightarrow> k \<notin> set (hoisted e)) \<longrightarrow>
        map_of d' k =
          (if \<exists>e\<in>set es. name e = obj \<and> filtered e = k then after_filter (map_of d1 k)
           else map_of d1 k)"
      by blast
    have "\<forall>k. (\<forall>e'\<in>set (e # es). name e' = obj \<longrightarrow> k \<notin> set (hoisted e')) \<longrightarrow>
        map_of d' k =
          (if \<exists>e'\<in>set (e # es). name e' = obj \<and> filtered e' = k then after_filter (map_of d k)
           else map_of d k)"
    proof (intro allI impI)
      fix k
      assume nh: "\<forall>e'\<in>set (e # es). name e' = obj \<longrightarrow> k \<notin> set (hoisted e')"
      then have nhe: "k \<notin> set (hoisted e)" and nhes: "\<forall>e'\<in>set es. name e' = obj \<longrightarrow> k \<notin> set (hoisted e')"
        using True by auto
      from ih nhes have dk: "map_of d' k =
          (if \<exists>e\<in>set es. name e = obj \<and> filtered e = k then after_filter (map_of d1 k)
           else map_of d1 k)" by blast
      show "map_of d' k =
          (if \<exists>e'\<in>set (e # es). name e' = obj \<and> filtered e' = k then after_filter (map_of d k)
           else map_of d k)"
      proof (cases "filtered e = k")
        case True
        with filt have "map_of d1 k = after_filter (map_of d k)" by simp
        with dk True \<open>name e = obj\<close> show ?thesis by (auto simp: after_filter_idem)
      next
        case False
        with keep nhe have "map_of d1 k = map_of d k" by simp
        with dk False show ?thesis by auto
      qed
    qed
    with d' show ?thesis by blast
  qed
qed

lemma process_clean:
  "\<forall>e\<in>set es. name e = obj \<longrightarrow> map_of d (filtered e) = None \<or> map_of d (filtered e) = Some JNull \<Longrightarrow>
   process obj (JObj d) es = Inr (JObj d)"
proof (induction es)
  case Nil
  then show ?case by simp
next
  case (Cons e es)
  have "process_entry obj e (JObj d) = Inr (JObj d)"
  proof (cases "name e = obj")
    case False
    then show ?thesis by (simp add: process_entry_other)
  next
    case True
    with Cons.prems have "map_of d (filtered e) = None \<or> map_of d (filtered e) = Some JNull"
      by simp
    then show ?thesis
    proof
      assume "map_of d (filtered e) = None"
      then have "filtered e \<notin> fst ` set d" by (simp add: key_in_dict)
      then show ?thesis by (simp add: process_entry_def)
    next
      assume n: "map_of d (filtered e) = Some JNull"
      then have "filtered e \<in> fst ` set d" by (simp add: key_in_dict)
      with n show ?thesis by (simp add: process_entry_def retain_loop_null)
    qed
  qed
  with Cons show ?case by simp
qed

lemma mapping_no_clash:
  "\<forall>e\<in>set mapping. \<forall>e'\<in>set mapping. filtered e \<notin> set (hoisted e')"
  by (simp add: mapping_def hoisted_def)

text \<open>
  C1, as amended. For every rule of the table that matches a record (the rule is for the
  operator's object and the record has the filtered key), the filtered record has lost
  the key when its value was not null, and still has the key, with the null, when the
  value was null.
\<close>

theorem filter_deletes_unless_null:
  assumes "e \<in> set mapping" and "name e = obj"
    and "py_getitem r (filtered e) = Inr v"
    and "filterMapper obj r = Inr r'"
  shows "(v \<noteq> JNull \<longrightarrow> py_getitem r' (filtered e) = Inl KeyError) \<and>
         (v = JNull \<longrightarrow> py_getitem r' (filtered e) = Inr JNull)"
proof -
  from assms(3) obtain d where d: "r = JObj d" and v: "map_of d (filtered e) = Some v"
    by (cases r) (auto split: option.splits)
  from assms(4) d have "process obj (JObj d) mapping = Inr r'"
    by (simp add: filterMapper_def)
  from process_obj [OF this] obtain d' where d': "r' = JObj d'"
    and keys: "\<forall>k. (\<forall>e\<in>set mapping. name e = obj \<longrightarrow> k \<notin> set (hoisted e)) \<longrightarrow>
        map_of d' k =
          (if \<exists>e\<in>set mapping. name e = obj \<and> filtered e = k
           then after_filter (map_of d k) else map_of d k)"
    by blast
  from mapping_no_clash assms(1)
  have "\<forall>e'\<in>set mapping. name e' = obj \<longrightarrow> filtered e \<notin> set (hoisted e')"
    by blast
  with keys assms(1,2) have "map_of d' (filtered e) = after_filter (map_of d (filtered e))"
    by auto
  with v d' show ?thesis by (simp add: after_filter_def)
qed

text \<open>A record that came out of the filter goes through it unchanged.\<close>

lemma filterMapper_fixpoint:
  assumes "filterMapper obj r = Inr r'"
  shows "filterMapper obj r' = Inr r'"
proof (cases "\<exists>d. r = JObj d")
  case False
  with assms have "r' = r"
    by (auto simp: filterMapper_def dest: process_non_obj)
  with assms show ?thesis by simp
next
  case True
  then obtain d where d: "r = JObj d" by blast
  from assms d have "process obj (JObj d) mapping = Inr r'"
    by (simp add: filterMapper_def)
  from process_obj [OF this] obtain d' where d': "r' = JObj d'"
    and keys: "\<forall>k. (\<forall>e\<in>set mapping. name e = obj \<longrightarrow> k \<notin> set (hoisted e)) \<longrightarrow>
        map_of d' k =
          (if \<exists>e\<in>set mapping. name e = obj \<and> filtered e = k
           then after_filter (map_of d k) else map_of d k)"
    by blast
  have "\<forall>e\<in>set mapping. name e = obj \<longrightarrow>
          map_of d' (filtered e) = None \<or> map_of d' (filtered e) = Some JNull"
  proof (intro ballI impI)
    fix e assume e: "e \<in> set mapping" "name e = obj"
    with mapping_no_clash
    have "\<forall>e'\<in>set mapping. name e' = obj \<longrightarrow> filtered e \<notin> set (hoisted e')"
      by blast
    with keys e have "map_of d' (filtered e) = after_filter (map_of d (filtered e))"
      by auto
    then show "map_of d' (filtered e) = None \<or> map_of d' (filtered e) = Some JNull"
      by (simp add: after_filter_def)
  qed
  from process_clean [OF this] d' show ?thesis by (simp add: filterMapper_def)
qed

text \<open>
  C8. The filter is idempotent: applying it twice gives what applying it once gives, the
  same record when the first application returns one and the same exception when it
  raises.
\<close>

theorem filterMapper_idempotent:
  "(case filterMapper obj r of Inl err \<Rightarrow> Inl err | Inr r' \<Rightarrow> filterMapper obj r') =
   filterMapper obj r"
  by (cases "filterMapper obj r") (simp_all add: filterMapper_fixpoint)

section \<open>Properties of the pagination\<close>

lemma dict_set_fresh: "k \<notin> fst ` set d \<Longrightarrow> dict_set k v d = d @ [(k, v)]"
  by (induction d) auto

lemma fold_dict_set_fresh:
  "distinct (map fst pl) \<Longrightarrow> fst ` set pl \<inter> fst ` set d = {} \<Longrightarrow>
   fold (\<lambda>(param, v). dict_set param v) pl d = d @ pl"
proof (induction pl arbitrary: d)
  case Nil
  then show ?case by simp
next
  case (Cons kv pl)
  obtain k v where kv: "kv = (k, v)" by (cases kv)
  from Cons.prems kv have fresh: "k \<notin> fst ` set d" by auto
  from Cons.prems kv have "fst ` set pl \<inter> fst ` set (d @ [(k, v)]) = {}" by auto
  with Cons.IH [of "d @ [(k, v)]"] Cons.prems(1) kv fresh show ?case
    by (simp add: dict_set_fresh)
qed

lemma initial_payload_default:
  assumes "distinct (map fst (payload self))"
    and "''page'' \<notin> fst ` set (payload self)" and "''per_page'' \<notin> fst ` set (payload self)"
  shows "(endpoint, initial_payload self) = page_request self endpoint 1"
proof -
  from assms(2,3) have "fst ` set (payload self) \<inter> fst ` set [(''per_page'', JNum 100), (''page'', JNum 1)] = {}"
    by auto
  from fold_dict_set_fresh [OF assms(1) this] show ?thesis
    by (simp add: initial_payload_def page_request_def)
qed

lemma next_page_request:
  "next_page (snd (page_request self endpoint i)) = Inr (snd (page_request self endpoint (Suc i)))"
  by (simp add: next_page_def page_request_def add_one_def)

lemma retrieved_request:
  "retrieved (snd (page_request self endpoint i)) = Inr (JNum (100 * int i))"
  by (simp add: retrieved_def page_request_def py_mul_def)

lemma page_request_fst: "fst (page_request self endpoint i) = endpoint"
  by (simp add: page_request_def)

lemma paginate_loop_pages:
  assumes "\<forall>q\<in>set (butlast (cur # pages)). length q = 100"
    and "length (last (cur # pages)) \<noteq> 100"
    and "\<forall>i<length pages.
           g (log @ map (page_request self endpoint) [Suc p..<Suc p + i])
             (page_request self endpoint (Suc p + i)) = Inr (JArr (pages ! i))"
  shows "paginate_loop g endpoint (snd (page_request self endpoint p)) (JArr cur) out log =
         Some (Inr (out @ concat pages),
               log @ map (page_request self endpoint) [Suc p..<Suc p + length pages])"
  using assms
proof (induction pages arbitrary: cur out log p)
  case Nil
  then show ?case by (simp add: paginate_loop.simps)
next
  case (Cons q qs)
  from Cons.prems(1) have len: "length cur = 100" by simp
  from Cons.prems(3) have first: "g log (page_request self endpoint (Suc p)) = Inr (JArr q)"
    by fastforce
  have rq: "(endpoint, snd (page_request self endpoint (Suc p))) = page_request self endpoint (Suc p)"
    by (simp add: page_request_def)
  have served: "\<forall>i<length qs.
           g ((log @ [page_request self endpoint (Suc p)]) @
                map (page_request self endpoint) [Suc (Suc p)..<Suc (Suc p) + i])
             (page_request self endpoint (Suc (Suc p) + i)) = Inr (JArr (qs ! i))"
  proof (intro allI impI)
    fix i assume "i < length qs"
    then have "Suc i < length (q # qs)" by simp
    with Cons.prems(3) have "g (log @ map (page_request self endpoint) [Suc p..<Suc p + Suc i])
             (page_request self endpoint (Suc p + Suc i)) = Inr (JArr ((q # qs) ! Suc i))"
      by blast
    moreover have eq: "[Suc p..<Suc p + Suc i] = Suc p # [Suc (Suc p)..<Suc (Suc p) + i]"
      by (simp add: upt_rec)
    ultimately have "g (log @ map (page_request self endpoint) (Suc p # [Suc (Suc p)..<Suc (Suc p) + i]))
             (page_request self endpoint (Suc p + Suc i)) = Inr (JArr ((q # qs) ! Suc i))"
      by (simp only:)
    then show "g ((log @ [page_request self endpoint (Suc p)]) @
                map (page_request self endpoint) [Suc (Suc p)..<Suc (Suc p) + i])
             (page_request self endpoint (Suc (Suc p) + i)) = Inr (JArr (qs ! i))"
      by (simp only: list.map append_Cons append_Nil append_assoc add_Suc_right add_Suc nth_Cons_Suc)
  qed
  from Cons.prems(1) have b: "\<forall>q'\<in>set (butlast (q # qs)). length q' = 100" by simp
  from Cons.prems(2) have l: "length (last (q # qs)) \<noteq> 100" by simp
  have step: "paginate_loop g endpoint (snd (page_request self endpoint p)) (JArr cur) out log =
    paginate_loop g endpoint (snd (page_request self endpoint (Suc p))) (JArr q) (out @ q)
      (log @ [page_request self endpoint (Suc p)])"
    by (subst paginate_loop.simps)
      (simp add: len next_page_request run_json_def rq first retrieved_request py_extend_def)
  have "[Suc p..<Suc p + length (q # qs)] = Suc p # [Suc (Suc p)..<Suc (Suc p) + length qs]"
    by (simp add: upt_rec)
  with step Cons.IH [OF b l served, of "out @ q"] show ?case by simp
qed

lemma filter_all_unchanged:
  "\<forall>r\<in>set rs. filterMapper obj r = Inr r \<Longrightarrow> filter_all obj rs = Inr rs"
  by (induction rs) simp_all

lemma filter_all_append:
  "filter_all obj (xs @ ys) =
     (case filter_all obj xs of
        Inl err \<Rightarrow> Inl err
      | Inr xs' \<Rightarrow> (case filter_all obj ys of Inl err \<Rightarrow> Inl err | Inr ys' \<Rightarrow> Inr (xs' @ ys')))"
  by (induction xs) (simp_all split: sum.splits)

lemma sample_length: "length (sample a b) = b - a"
  by (simp add: sample_def)

lemma sample_append: "a \<le> b \<Longrightarrow> b \<le> c \<Longrightarrow> sample a b @ sample b c = sample a c"
proof -
  assume "a \<le> b" "b \<le> c"
  then have "[a..<c] = [a..<b] @ [b..<c]"
    using upt_add_eq_append [of a b "c - b"] by simp
  then show ?thesis by (simp add: sample_def)
qed

lemma sample_filtered: "filter_all ''commits'' (sample a b) = Inr (sample a b)"
  by (rule filter_all_unchanged)
    (auto simp: sample_def filterMapper_def mapping_def process_entry_def)

lemma paginate_data_served:
  assumes "distinct (map fst (payload self))"
    and "''page'' \<notin> fst ` set (payload self)" and "''per_page'' \<notin> fst ` set (payload self)"
    and "pages \<noteq> []"
    and "\<forall>q\<in>set (butlast pages). length q = 100" and "length (last pages) \<noteq> 100"
    and "\<forall>i<length pages.
           g (log @ map (page_request self endpoint) [1..<Suc i])
             (page_request self endpoint (Suc i)) = Inr (JArr (pages ! i))"
  shows "paginate_data self g endpoint log =
         Some (filter_all (github_object self) (concat pages),
               log @ map (page_request self endpoint) [1..<Suc (length pages)])"
proof -
  from assms(4) obtain cur rest where pages: "pages = cur # rest" by (cases pages) auto
  have first: "(endpoint, initial_payload self) = page_request self endpoint 1"
    by (rule initial_payload_default [OF assms(1-3)])
  then have ip: "initial_payload self = snd (page_request self endpoint 1)"
    by (metis snd_conv)
  from assms(7) pages have g1: "g log (page_request self endpoint 1) = Inr (JArr cur)"
    by fastforce
  have served: "\<forall>i<length rest.
           g ((log @ [page_request self endpoint 1]) @
                map (page_request self endpoint) [Suc 1..<Suc 1 + i])
             (page_request self endpoint (Suc 1 + i)) = Inr (JArr (rest ! i))"
  proof (intro allI impI)
    fix i assume "i < length rest"
    with pages have "Suc i < length pages" by simp
    with assms(7) have "g (log @ map (page_request self endpoint) [1..<Suc (Suc i)])
             (page_request self endpoint (Suc (Suc i))) = Inr (JArr (pages ! Suc i))"
      by blast
    moreover have "[1..<Suc (Suc i)] = 1 # [Suc 1..<Suc 1 + i]"
      by (simp add: upt_rec)
    ultimately have "g (log @ map (page_request self endpoint) (1 # [Suc 1..<Suc 1 + i]))
             (page_request self endpoint (Suc (Suc i))) = Inr (JArr ((cur # rest) ! Suc i))"
      using pages by (simp only:)
    then show "g ((log @ [page_request self endpoint 1]) @
                map (page_request self endpoint) [Suc 1..<Suc 1 + i])
             (page_request self endpoint (Suc 1 + i)) = Inr (JArr (rest ! i))"
      by (simp only: list.map append_Cons append_Nil append_assoc add_Suc_right add_Suc nth_Cons_Suc
          add_0 add_0_right One_nat_def)
  qed
  from assms(5,6) pages have b: "\<forall>q\<in>set (butlast (cur # rest)). length q = 100"
    and l: "length (last (cur # rest)) \<noteq> 100" by simp_all
  define log1 where "log1 = log @ [page_request self endpoint 1]"
  define reqs where "reqs = map (page_request self endpoint) [Suc 1..<Suc 1 + length rest]"
  have "paginate_loop g endpoint (snd (page_request self endpoint 1)) (JArr cur) ([] @ cur)
      (log @ [page_request self endpoint 1]) =
         Some (Inr (([] @ cur) @ concat rest),
               (log @ [page_request self endpoint 1]) @
                 map (page_request self endpoint) [Suc 1..<Suc 1 + length rest])"
    by (rule paginate_loop_pages [OF b l served])
  then have loop: "paginate_loop g endpoint (initial_payload self) (JArr cur) cur log1 =
         Some (Inr (cur @ concat rest), log1 @ reqs)"
    by (simp only: log1_def reqs_def ip append_Nil)
  have run: "run_json g endpoint (initial_payload self) log = (Inr (JArr cur), log1)"
    using g1 first by (simp add: run_json_def log1_def)
  have ret: "retrieved (initial_payload self) = Inr (JNum 100)"
    using retrieved_request [of self endpoint 1] by (simp add: ip)
  have "paginate_data self g endpoint log =
        Some (filter_all (github_object self) (cur @ concat rest), log1 @ reqs)"
    by (simp add: paginate_data_def run py_extend_def ret loop)
  moreover have "[1..<Suc (length pages)] = 1 # [Suc 1..<Suc 1 + length rest]"
    using pages by (simp add: upt_rec)
  then have "log @ map (page_request self endpoint) [1..<Suc (length pages)] = log1 @ reqs"
    by (simp only: log1_def reqs_def list.map append_Cons append_Nil append_assoc)
  ultimately show ?thesis using pages by simp
qed


text \<open>
  C2, as amended. The payload sets neither \<open>page\<close> nor \<open>per_page\<close>, so \<open>per_page\<close> is the
  100 that the loop tests. Whatever pages the server answers with, as long as every page
  before the last has exactly 100 records and the last has another number: the requests made are those for pages 1, 2, ... up to
  that last page and no more, and the result is the records of these pages, in page
  order, through the filter.
\<close>

theorem pagination_stops_at_short_page:
  assumes "distinct (map fst (payload self))"
    and "''page'' \<notin> fst ` set (payload self)" and "''per_page'' \<notin> fst ` set (payload self)"
    and "pages \<noteq> []"
    and "\<forall>q\<in>set (butlast pages). length q = 100" and "length (last pages) \<noteq> 100"
    and "\<forall>i<length pages.
           g (log @ map (page_request self endpoint) [1..<Suc i])
             (page_request self endpoint (Suc i)) = Inr (JArr (pages ! i))"
  shows "paginate_data self g endpoint log =
         Some (filter_all (github_object self) (concat pages),
               log @ map (page_request self endpoint) [1..<Suc (length pages)])"
  using assms by (rule paginate_data_served)

lemma serve_nth:
  "i < length bodies \<Longrightarrow> length log = i \<Longrightarrow> serve bodies log request = Inr (bodies ! i)"
  by (simp add: serve_def)

lemma upt_1_4: "[1..<Suc 3] = [1, 2, 3]"
  by (simp add: upt_rec)

text \<open>Pages of 100, 100 and 50 records: three requests, 250 records in page order.\<close>

theorem pagination_stops_at_short_page_witness:
  "paginate_data (commits_of (JStr ''repo''))
     (serve [JArr (sample 0 100), JArr (sample 100 200), JArr (sample 200 250)])
     (Format ''repos/{0}/{1}/commits'' [JStr ''org'', JStr ''repo'']) [] =
   Some (Inr (sample 0 250),
     [(Format ''repos/{0}/{1}/commits'' [JStr ''org'', JStr ''repo''],
         [(''per_page'', JNum 100), (''page'', JNum 1)]),
      (Format ''repos/{0}/{1}/commits'' [JStr ''org'', JStr ''repo''],
         [(''per_page'', JNum 100), (''page'', JNum 2)]),
      (Format ''repos/{0}/{1}/commits'' [JStr ''org'', JStr ''repo''],
         [(''per_page'', JNum 100), (''page'', JNum 3)])])
   \<and> length (sample 0 250) = 250"
proof -
  let ?self = "commits_of (JStr ''repo'')"
  let ?ep = "Format ''repos/{0}/{1}/commits'' [JStr ''org'', JStr ''repo'']"
  let ?pages = "[sample 0 100, sample 100 200, sample 200 250]"
  let ?g = "serve [JArr (sample 0 100), JArr (sample 100 200), JArr (sample 200 250)]"
  have h1: "distinct (map fst (payload ?self))"
    and h2: "''page'' \<notin> fst ` set (payload ?self)"
    and h3: "''per_page'' \<notin> fst ` set (payload ?self)"
    by (simp_all add: commits_of_def)
  have h4: "?pages \<noteq> []" by simp
  have h5: "\<forall>q\<in>set (butlast ?pages). length q = 100" by (simp add: sample_length)
  have h6: "length (last ?pages) \<noteq> 100" by (simp add: sample_length)
  have h7: "\<forall>i<length ?pages.
           ?g ([] @ map (page_request ?self ?ep) [1..<Suc i])
             (page_request ?self ?ep (Suc i)) = Inr (JArr (?pages ! i))"
  proof (intro allI impI)
    fix i assume i: "i < length ?pages"
    then have "?g ([] @ map (page_request ?self ?ep) [1..<Suc i]) (page_request ?self ?ep (Suc i))
        = Inr ([JArr (sample 0 100), JArr (sample 100 200), JArr (sample 200 250)] ! i)"
      by (intro serve_nth) simp_all
    moreover from i have "i = 0 \<or> i = 1 \<or> i = 2" by auto
    ultimately show "?g ([] @ map (page_request ?self ?ep) [1..<Suc i])
             (page_request ?self ?ep (Suc i)) = Inr (JArr (?pages ! i))"
      by auto
  qed
  have cat: "concat ?pages = sample 0 250"
    using sample_append [of 100 200 250] sample_append [of 0 100 250] by simp
  have obj: "github_object ?self = ''commits''" by (simp add: commits_of_def)
  have len: "length ?pages = 3" by simp
  from pagination_stops_at_short_page [OF h1 h2 h3 h4 h5 h6 h7]
  have "paginate_data ?self ?g ?ep [] =
    Some (filter_all ''commits'' (sample 0 250), [] @ map (page_request ?self ?ep) [1, 2, 3])"
    by (simp only: cat obj len upt_1_4)
  then show ?thesis
    by (simp add: sample_filtered sample_length page_request_def commits_of_def)
qed

text \<open>
  The pagination need not return: against a hook that answers every request with a page
  of 100 records the loop goes on for ever, and the model's result is \<open>None\<close>.
\<close>

lemma full_pages_loop_forever:
  assumes "paginate_loop g endpoint fp response out log = Some y"
  shows "\<not> ((\<forall>lg rq. \<exists>page. g lg rq = Inr (JArr page) \<and> length page = 100) \<and>
            py_len response = Inr 100 \<and> (\<exists>p. fp = snd (page_request self endpoint p)))"
  using assms
proof (induction rule: paginate_loop.raw_induct [rotated 1, consumes 1, case_names step])
  case (step loop g endpoint fp response out log y)
  note IH = step(1) and body = step(2)
  show ?case
  proof
    assume inv: "(\<forall>lg rq. \<exists>page. g lg rq = Inr (JArr page) \<and> length page = 100) \<and>
            py_len response = Inr 100 \<and> (\<exists>p. fp = snd (page_request self endpoint p))"
    then obtain p where fp: "fp = snd (page_request self endpoint p)" by blast
    from inv obtain page where page: "g log (endpoint, snd (page_request self endpoint (Suc p))) = Inr (JArr page)"
      and len: "length page = 100" by blast
    from body inv fp page
    have "loop g endpoint (snd (page_request self endpoint (Suc p))) (JArr page) (out @ page)
            (log @ [(endpoint, snd (page_request self endpoint (Suc p)))]) = Some y"
      by (simp add: next_page_request run_json_def retrieved_request py_extend_def)
    from IH [OF this] inv len show False by auto
  qed
qed

lemma full_pages_never_return:
  assumes "distinct (map fst (payload self))"
    and "''page'' \<notin> fst ` set (payload self)" and "''per_page'' \<notin> fst ` set (payload self)"
    and "length page = 100"
  shows "paginate_data self (\<lambda>log request. Inr (JArr page)) endpoint log = None"
proof -
  let ?g = "\<lambda>log request. Inr (JArr page) :: error + json"
  have ip: "initial_payload self = snd (page_request self endpoint 1)"
    using initial_payload_default [OF assms(1-3), of endpoint] by (metis snd_conv)
  have "paginate_loop ?g endpoint (snd (page_request self endpoint 1)) (JArr page) page
          (log @ [(endpoint, snd (page_request self endpoint 1))]) = None"
  proof (cases "paginate_loop ?g endpoint (snd (page_request self endpoint 1)) (JArr page) page
          (log @ [(endpoint, snd (page_request self endpoint 1))])")
    case None
    then show ?thesis .
  next
    case (Some y)
    from full_pages_loop_forever [OF Some, of self] assms(4) show ?thesis by auto
  qed
  then show ?thesis
    by (simp add: paginate_data_def ip run_json_def py_extend_def retrieved_request)
qed

text \<open>
  C2, as it is stated, fails: the bound of the loop is the literal 100, not the
  \<open>per_page\<close> of the request. With a payload that sets \<open>per_page\<close> to 50, a server that
  holds 120 records answers the first request with exactly \<open>per_page\<close> records, and the
  pagination ends there, after one request.
\<close>

theorem per_page_override_stops_early_counterexample:
  "backend (sample 0 120) []
     (Format ''repos/{0}/{1}/commits'' [JStr ''org'', JStr ''repo''],
      [(''per_page'', JNum 50), (''page'', JNum 1)]) = Inr (JArr (sample 0 50)) \<and>
   length (sample 0 50) = 50 \<and>
   paginate_data ((commits_of (JStr ''repo''))\<lparr>payload := [(''per_page'', JNum 50)]\<rparr>)
     (backend (sample 0 120)) (Format ''repos/{0}/{1}/commits'' [JStr ''org'', JStr ''repo'']) [] =
   Some (Inr (sample 0 50),
     [(Format ''repos/{0}/{1}/commits'' [JStr ''org'', JStr ''repo''],
         [(''per_page'', JNum 50), (''page'', JNum 1)])])"
proof -
  have "take 50 (sample 0 120) = sample 0 50"
    by (simp add: sample_def take_map)
  then show ?thesis
    by (simp add: paginate_data_def initial_payload_def commits_of_def run_json_def backend_def
        py_extend_def retrieved_def py_mul_def paginate_loop.simps sample_length sample_filtered)
qed

lemma concat_slices:
  "concat (map (\<lambda>i. take n (drop (i * n) xs)) [0..<m]) = take (m * n) xs"
proof (induction m)
  case 0
  then show ?case by simp
next
  case (Suc m)
  have "take (Suc m * n) xs = take (m * n) xs @ take n (drop (m * n) xs)"
    using take_add [of "m * n" n xs] by (simp add: add.commute)
  with Suc show ?case by simp
qed

lemma backend_page:
  "backend records lg (page_request self endpoint (Suc i)) =
     Inr (JArr (take 100 (drop (i * 100) records)))"
  by (simp add: backend_def page_request_def)

lemma paginate_data_backend:
  assumes "distinct (map fst (payload self))"
    and "''page'' \<notin> fst ` set (payload self)" and "''per_page'' \<notin> fst ` set (payload self)"
  shows "paginate_data self (backend records) endpoint log =
         Some (filter_all (github_object self) records,
               log @ map (page_request self endpoint) [1..<Suc (Suc (length records div 100))])"
proof -
  define k where "k = length records div 100"
  define pages where "pages = map (\<lambda>i. take 100 (drop (i * 100) records)) [0..<Suc k]"
  have len: "length pages = Suc k" by (simp add: pages_def)
  have h4: "pages \<noteq> []" using len by auto
  have bl: "butlast pages = map (\<lambda>i. take 100 (drop (i * 100) records)) [0..<k]"
    by (simp add: pages_def butlast_append [of _ "[x]" for x, simplified])
  have h5: "\<forall>q\<in>set (butlast pages). length q = 100"
  proof
    fix q assume "q \<in> set (butlast pages)"
    with bl obtain i where i: "i < k" and q: "q = take 100 (drop (i * 100) records)" by auto
    from i have "Suc i * 100 \<le> k * 100" by (simp only: mult_le_cancel2 Suc_le_eq) simp
    also have "k * 100 \<le> length records" by (simp add: k_def)
    finally show "length q = 100" using q by simp
  qed
  have "last pages = take 100 (drop (k * 100) records)" by (simp add: pages_def)
  moreover have "length records - k * 100 = length records mod 100"
    by (simp add: k_def minus_div_mult_eq_mod)
  ultimately have h6: "length (last pages) \<noteq> 100" by simp
  have h7: "\<forall>i<length pages.
           backend records (log @ map (page_request self endpoint) [1..<Suc i])
             (page_request self endpoint (Suc i)) = Inr (JArr (pages ! i))"
  proof (intro allI impI)
    fix i assume "i < length pages"
    then have "i < Suc k" by (simp add: len)
    then have "pages ! i = take 100 (drop (i * 100) records)"
      unfolding pages_def by (simp only: nth_map_upt add_0 diff_zero)
    then show "backend records (log @ map (page_request self endpoint) [1..<Suc i])
             (page_request self endpoint (Suc i)) = Inr (JArr (pages ! i))"
      by (simp only: backend_page)
  qed
  have "length records < Suc k * 100"
    using div_mult_mod_eq [of "length records" 100] by (simp add: k_def)
  then have "concat pages = records"
    unfolding pages_def by (simp only: concat_slices) simp
  with paginate_data_served [OF assms h4 h5 h6 h7] len show ?thesis
    by (simp add: k_def)
qed

text \<open>
  C3, as amended. Against a server that holds a positive multiple of 100 records, and
  with a payload that sets neither \<open>page\<close> nor \<open>per_page\<close>, the pagination makes
  count / 100 + 1 requests, the last of which is answered with an empty page, and returns all the records, through the
  filter.
\<close>

theorem exact_multiple_extra_request:
  assumes "distinct (map fst (payload self))"
    and "''page'' \<notin> fst ` set (payload self)" and "''per_page'' \<notin> fst ` set (payload self)"
    and "records \<noteq> []" and "length records mod 100 = 0"
  shows "paginate_data self (backend records) endpoint log =
           Some (filter_all (github_object self) records,
                 log @ map (page_request self endpoint) [1..<Suc (length records div 100 + 1)]) \<and>
         backend records log' (page_request self endpoint (length records div 100 + 1)) =
           Inr (JArr [])"
proof -
  from assms(5) have "length records div 100 * 100 = length records"
    by (simp add: mod_0_imp_dvd)
  then have "backend records log' (page_request self endpoint (Suc (length records div 100))) =
           Inr (JArr [])"
    by (simp only: backend_page) simp
  with paginate_data_backend [OF assms(1-3)] show ?thesis by simp
qed

text \<open>200 records: three requests, the third answered with an empty page.\<close>

theorem exact_multiple_extra_request_witness:
  "paginate_data (commits_of (JStr ''repo'')) (backend (sample 0 200))
     (Format ''repos/{0}/{1}/commits'' [JStr ''org'', JStr ''repo'']) [] =
   Some (Inr (sample 0 200),
     [(Format ''repos/{0}/{1}/commits'' [JStr ''org'', JStr ''repo''],
         [(''per_page'', JNum 100), (''page'', JNum 1)]),
      (Format ''repos/{0}/{1}/commits'' [JStr ''org'', JStr ''repo''],
         [(''per_page'', JNum 100), (''page'', JNum 2)]),
      (Format ''repos/{0}/{1}/commits'' [JStr ''org'', JStr ''repo''],
         [(''per_page'', JNum 100), (''page'', JNum 3)])]) \<and>
   backend (sample 0 200) []
     (Format ''repos/{0}/{1}/commits'' [JStr ''org'', JStr ''repo''],
         [(''per_page'', JNum 100), (''page'', JNum 3)]) = Inr (JArr []) \<and>
   length (sample 0 200) = 200"
proof -
  let ?self = "commits_of (JStr ''repo'')"
  let ?ep = "Format ''repos/{0}/{1}/commits'' [JStr ''org'', JStr ''repo'']"
  have h1: "distinct (map fst (payload ?self))"
    and h2: "''page'' \<notin> fst ` set (payload ?self)"
    and h3: "''per_page'' \<notin> fst ` set (payload ?self)"
    by (simp_all add: commits_of_def)
  have h4: "sample 0 200 \<noteq> []" by (simp add: sample_def)
  have h5: "length (sample 0 200) mod 100 = 0" by (simp add: sample_length)
  have n: "Suc (length (sample 0 200) div 100 + 1) = Suc 3" "length (sample 0 200) div 100 + 1 = 3"
    by (simp_all add: sample_length)
  have obj: "github_object ?self = ''commits''" by (simp add: commits_of_def)
  from exact_multiple_extra_request [OF h1 h2 h3 h4 h5, of ?ep "[]" "[]"]
  have "paginate_data ?self (backend (sample 0 200)) ?ep [] =
           Some (filter_all ''commits'' (sample 0 200), [] @ map (page_request ?self ?ep) [1, 2, 3]) \<and>
         backend (sample 0 200) [] (page_request ?self ?ep 3) = Inr (JArr [])"
    by (simp only: n obj upt_1_4)
  then show ?thesis
    by (simp add: sample_filtered sample_length page_request_def commits_of_def)
qed

text \<open>
  C3, as it is stated, fails: against a server that holds 200 records, a payload that
  sets \<open>per_page\<close> to 50 gives one request and 50 records, and a payload that sets \<open>page\<close>
  to 2 gives two requests and the last 100 records.
\<close>

theorem exact_multiple_override_counterexample:
  "length (sample 0 200) = 200 \<and>
   paginate_data ((commits_of (JStr ''repo''))\<lparr>payload := [(''per_page'', JNum 50)]\<rparr>)
     (backend (sample 0 200)) (Format ''repos/{0}/{1}/commits'' [JStr ''org'', JStr ''repo'']) [] =
   Some (Inr (sample 0 50),
     [(Format ''repos/{0}/{1}/commits'' [JStr ''org'', JStr ''repo''],
         [(''per_page'', JNum 50), (''page'', JNum 1)])]) \<and>
   paginate_data ((commits_of (JStr ''repo''))\<lparr>payload := [(''page'', JNum 2)]\<rparr>)
     (backend (sample 0 200)) (Format ''repos/{0}/{1}/commits'' [JStr ''org'', JStr ''repo'']) [] =
   Some (Inr (sample 100 200),
     [(Format ''repos/{0}/{1}/commits'' [JStr ''org'', JStr ''repo''],
         [(''per_page'', JNum 100), (''page'', JNum 2)]),
      (Format ''repos/{0}/{1}/commits'' [JStr ''org'', JStr ''repo''],
         [(''per_page'', JNum 100), (''page'', JNum 3)])])"
proof -
  have a: "take 50 (sample 0 200) = sample 0 50"
    by (simp add: sample_def take_map)
  have b: "take 100 (drop 100 (sample 0 200)) = sample 100 200"
    by (simp add: sample_def take_map drop_map)
  have c: "drop 200 (sample 0 200) = []"
    by (simp add: sample_def)
  have one: "paginate_data ((commits_of (JStr ''repo''))\<lparr>payload := [(''per_page'', JNum 50)]\<rparr>)
     (backend (sample 0 200)) (Format ''repos/{0}/{1}/commits'' [JStr ''org'', JStr ''repo'']) [] =
   Some (Inr (sample 0 50),
     [(Format ''repos/{0}/{1}/commits'' [JStr ''org'', JStr ''repo''],
         [(''per_page'', JNum 50), (''page'', JNum 1)])])"
    using a
    by (simp add: paginate_data_def initial_payload_def commits_of_def run_json_def backend_def
        py_extend_def retrieved_def py_mul_def paginate_loop.simps sample_length sample_filtered)
  have two: "paginate_data ((commits_of (JStr ''repo''))\<lparr>payload := [(''page'', JNum 2)]\<rparr>)
     (backend (sample 0 200)) (Format ''repos/{0}/{1}/commits'' [JStr ''org'', JStr ''repo'']) [] =
   Some (Inr (sample 100 200),
     [(Format ''repos/{0}/{1}/commits'' [JStr ''org'', JStr ''repo''],
         [(''per_page'', JNum 100), (''page'', JNum 2)]),
      (Format ''repos/{0}/{1}/commits'' [JStr ''org'', JStr ''repo''],
         [(''per_page'', JNum 100), (''page'', JNum 3)])])"
    using b c
    by (simp add: paginate_data_def initial_payload_def commits_of_def run_json_def backend_def
        py_extend_def retrieved_def py_mul_def paginate_loop.simps sample_length sample_filtered
        next_page_def add_one_def)
  from one two show ?thesis by (simp add: sample_length)
qed

section \<open>The example record of the filter\<close>

text \<open>
  C1, as it is stated, fails on the commit of the specification: the committer is null,
  and the filtered record still has the key \<open>committer\<close>.
\<close>

theorem filter_keeps_null_counterexample:
  "filterMapper ''commits'' commit_example =
     Inr (JObj [(''sha'', JStr ''abc''), (''committer'', JNull), (''author_id'', JNum 7)])"
  by (simp add: commit_example_def filterMapper_def mapping_def process_entry_def retain_item_def)

text \<open>The amended C1 on the same commit, for the rules of \<open>committer\<close> and \<open>author\<close>.\<close>

theorem filter_deletes_unless_null_witness:
  "\<lparr>name = ''commits'', filtered = ''committer'', retained = Some [''id'']\<rparr> \<in> set mapping \<and>
   py_getitem commit_example ''committer'' = Inr JNull \<and>
   py_getitem commit_example ''author'' = Inr (JObj [(''id'', JNum 7), (''name'', JStr ''x'')]) \<and>
   filterMapper ''commits'' commit_example =
     Inr (JObj [(''sha'', JStr ''abc''), (''committer'', JNull), (''author_id'', JNum 7)]) \<and>
   py_getitem (JObj [(''sha'', JStr ''abc''), (''committer'', JNull), (''author_id'', JNum 7)])
     ''committer'' = Inr JNull \<and>
   py_getitem (JObj [(''sha'', JStr ''abc''), (''committer'', JNull), (''author_id'', JNum 7)])
     ''author'' = Inl KeyError"
proof -
  let ?c = "\<lparr>name = ''commits'', filtered = ''committer'', retained = Some [''id'']\<rparr>"
  let ?a = "\<lparr>name = ''commits'', filtered = ''author'', retained = Some [''id'']\<rparr>"
  let ?r' = "JObj [(''sha'', JStr ''abc''), (''committer'', JNull), (''author_id'', JNum 7)]"
  have c: "?c \<in> set mapping" and a: "?a \<in> set mapping" by (simp_all add: mapping_def)
  have nc: "name ?c = ''commits''" and na: "name ?a = ''commits''" by simp_all
  have gc: "py_getitem commit_example (filtered ?c) = Inr JNull"
    and ga: "py_getitem commit_example (filtered ?a) = Inr (JObj [(''id'', JNum 7), (''name'', JStr ''x'')])"
    by (simp_all add: commit_example_def)
  have f: "filterMapper ''commits'' commit_example = Inr ?r'"
    by (simp add: commit_example_def filterMapper_def mapping_def process_entry_def retain_item_def)
  from filter_deletes_unless_null [OF c nc gc f] filter_deletes_unless_null [OF a na ga f]
  have "py_getitem ?r' (filtered ?c) = Inr JNull" and "py_getitem ?r' (filtered ?a) = Inl KeyError"
    by simp_all
  with c gc ga f show ?thesis by simp
qed

text \<open>C8 on the same commit.\<close>

theorem filterMapper_idempotent_witness:
  "filterMapper ''commits'' commit_example =
     Inr (JObj [(''sha'', JStr ''abc''), (''committer'', JNull), (''author_id'', JNum 7)]) \<and>
   filterMapper ''commits''
     (JObj [(''sha'', JStr ''abc''), (''committer'', JNull), (''author_id'', JNum 7)]) =
     Inr (JObj [(''sha'', JStr ''abc''), (''committer'', JNull), (''author_id'', JNum 7)])"
proof -
  have f: "filterMapper ''commits'' commit_example =
     Inr (JObj [(''sha'', JStr ''abc''), (''committer'', JNull), (''author_id'', JNum 7)])"
    by (simp add: commit_example_def filterMapper_def mapping_def process_entry_def retain_item_def)
  from filterMapper_idempotent [of "''commits''" commit_example]
  have "filterMapper ''commits''
     (JObj [(''sha'', JStr ''abc''), (''committer'', JNull), (''author_id'', JNum 7)]) =
     Inr (JObj [(''sha'', JStr ''abc''), (''committer'', JNull), (''author_id'', JNum 7)])"
    by (simp only: f sum.case)
  with f show ?thesis by (rule conjI)
qed

lemma map_of_fold_dict_set:
  "distinct (map fst pl) \<Longrightarrow>
   map_of (fold (\<lambda>(param, v). dict_set param v) pl d) k =
     (case map_of pl k of Some v \<Rightarrow> Some v | None \<Rightarrow> map_of d k)"
proof (induction pl arbitrary: d)
  case Nil
  then show ?case by simp
next
  case (Cons kv pl)
  obtain k0 v0 where kv: "kv = (k0, v0)" by (cases kv)
  from Cons.prems kv have fresh: "map_of pl k0 = None" and dist: "distinct (map fst pl)"
    by (simp_all add: map_of_eq_None_iff)
  from Cons.IH [OF dist, of "dict_set k0 v0 d"] kv fresh show ?case
    by (auto simp: map_of_dict_set split: option.splits)
qed

lemma dict_set_twice: "dict_set k v (dict_set k w d) = dict_set k v d"
  by (induction d) auto

lemma next_page_later:
  assumes "next_page fp = Inr fp'"
  shows "fp' = later_payload fp 1" and "later_payload fp' i = later_payload fp (Suc i)"
proof -
  from assms obtain v p where v: "map_of fp ''page'' = Some v" and p: "as_int v = Some p"
    and fp': "fp' = dict_set ''page'' (JNum (p + 1)) fp"
    by (auto simp: next_page_def add_one_def split: option.splits sum.splits)
  from v p have pg: "page_of fp = p" by (simp add: page_of_def)
  with fp' show "fp' = later_payload fp 1" by (simp add: later_payload_def)
  from fp' have "page_of fp' = p + 1" by (simp add: page_of_def map_of_dict_set)
  with fp' pg show "later_payload fp' i = later_payload fp (Suc i)"
    by (simp add: later_payload_def dict_set_twice add.assoc)
qed

lemma paginate_loop_requests:
  assumes "paginate_loop g endpoint fp response out log = Some y"
  shows "\<exists>n. snd y = log @ map (\<lambda>i. (endpoint, later_payload fp i)) [1..<Suc n]"
  using assms
proof (induction rule: paginate_loop.raw_induct [rotated 1, consumes 1, case_names step])
  case (step loop g endpoint fp response out log y)
  note IH = step(1) and body = step(2)
  from body consider
      (stop) "snd y = log"
    | (fail) fp' where "next_page fp = Inr fp'" "snd y = log @ [(endpoint, fp')]"
    | (go) fp' response' out' where "next_page fp = Inr fp'"
        "loop g endpoint fp' response' out' (log @ [(endpoint, fp')]) = Some y"
    by (auto simp: run_json_def split: sum.splits if_splits prod.splits)
  then show ?case
  proof cases
    case stop
    then have "snd y = log @ map (\<lambda>i. (endpoint, later_payload fp i)) [1..<Suc 0]" by simp
    then show ?thesis by blast
  next
    case fail
    with next_page_later(1) [OF fail(1)]
    have "snd y = log @ map (\<lambda>i. (endpoint, later_payload fp i)) [1..<Suc 1]" by simp
    then show ?thesis by blast
  next
    case go
    from IH [OF go(2)] obtain n where
      n: "snd y = (log @ [(endpoint, fp')]) @ map (\<lambda>i. (endpoint, later_payload fp' i)) [1..<Suc n]"
      by blast
    have "map (\<lambda>i. (endpoint, later_payload fp' i)) [1..<Suc n] =
          map (\<lambda>i. (endpoint, later_payload fp i)) (map Suc [1..<Suc n])"
      by (simp add: next_page_later(2) [OF go(1)] comp_def)
    also have "map Suc [1..<Suc n] = [Suc 1..<Suc (Suc n)]" by (rule map_Suc_upt)
    finally have "snd y = log @ map (\<lambda>i. (endpoint, later_payload fp i)) (1 # [Suc 1..<Suc (Suc n)])"
      using n next_page_later(1) [OF go(1)] by simp
    moreover have "[1..<Suc (Suc n)] = 1 # [Suc 1..<Suc (Suc n)]" by (simp add: upt_rec)
    ultimately have "snd y = log @ map (\<lambda>i. (endpoint, later_payload fp i)) [1..<Suc (Suc n)]"
      by (simp only:)
    then show ?thesis by blast
  qed
qed

lemma paginate_data_requests:
  assumes "paginate_data self g endpoint log = Some (res, log')"
  shows "\<exists>n. log' = log @ (endpoint, initial_payload self) #
            map (\<lambda>i. (endpoint, later_payload (initial_payload self) i)) [1..<Suc n]"
proof -
  define fp where "fp = initial_payload self"
  define log1 where "log1 = log @ [(endpoint, fp)]"
  from assms consider (first) "log' = log1"
    | (loop) response out y where "paginate_loop g endpoint fp response out log1 = Some y" "snd y = log'"
    unfolding paginate_data_def Let_def run_json_def fp_def [symmetric] log1_def [symmetric]
    by (auto split: sum.splits option.splits prod.splits)
  then show ?thesis
  proof cases
    case first
    then have "log' = log @ (endpoint, fp) # map (\<lambda>i. (endpoint, later_payload fp i)) [1..<Suc 0]"
      by (simp add: log1_def)
    then show ?thesis unfolding fp_def by blast
  next
    case loop
    from paginate_loop_requests [OF loop(1)] loop(2) obtain n where
      "log' = log1 @ map (\<lambda>i. (endpoint, later_payload fp i)) [1..<Suc n]" by auto
    then have "log' = log @ (endpoint, fp) # map (\<lambda>i. (endpoint, later_payload fp i)) [1..<Suc n]"
      by (simp add: log1_def)
    then show ?thesis unfolding fp_def by blast
  qed
qed

text \<open>
  C4, as amended. The parameters of the first request are the two defaults with the
  payload stored on top: a key of the payload has the payload's value, \<open>page\<close> and
  \<open>per_page\<close> included, and any other key has its default. The requests of one
  pagination are the first one and then, in order, requests that differ from it only in
  \<open>page\<close>, which grows by one from request to request.
\<close>

theorem payload_overrides_defaults:
  assumes "distinct (map fst (payload self))"
  shows "(\<forall>k. map_of (initial_payload self) k =
            (case map_of (payload self) k of
               Some v \<Rightarrow> Some v
             | None \<Rightarrow> map_of [(''per_page'', JNum 100), (''page'', JNum 1)] k)) \<and>
         (\<forall>res log'. paginate_data self g endpoint log = Some (res, log') \<longrightarrow>
            (\<exists>n. log' = log @ (endpoint, initial_payload self) #
               map (\<lambda>i. (endpoint, later_payload (initial_payload self) i)) [1..<Suc n]))"
proof (intro conjI allI impI)
  fix k
  show "map_of (initial_payload self) k =
            (case map_of (payload self) k of
               Some v \<Rightarrow> Some v
             | None \<Rightarrow> map_of [(''per_page'', JNum 100), (''page'', JNum 1)] k)"
    unfolding initial_payload_def by (rule map_of_fold_dict_set [OF assms])
next
  fix res log' assume "paginate_data self g endpoint log = Some (res, log')"
  then show "\<exists>n. log' = log @ (endpoint, initial_payload self) #
               map (\<lambda>i. (endpoint, later_payload (initial_payload self) i)) [1..<Suc n]"
    by (rule paginate_data_requests)
qed


text \<open>
  C4, as it is stated, fails: a payload with \<open>page = 5\<close> makes the first request ask for
  page 5.
\<close>

theorem payload_overrides_page_counterexample:
  "paginate_data ((commits_of (JStr ''repo''))\<lparr>payload := [(''page'', JNum 5)]\<rparr>)
     (serve [JArr []]) (Format ''repos/{0}/{1}/commits'' [JStr ''org'', JStr ''repo'']) [] =
   Some (Inr [],
     [(Format ''repos/{0}/{1}/commits'' [JStr ''org'', JStr ''repo''],
         [(''per_page'', JNum 100), (''page'', JNum 5)])])"
  by (simp add: paginate_data_def initial_payload_def commits_of_def run_json_def serve_def
      py_extend_def retrieved_def py_mul_def paginate_loop.simps)

text \<open>The same payload against a server with a full and a short page: pages 5 and 6 are
  requested.\<close>

theorem payload_overrides_defaults_witness:
  "distinct (map fst (payload ((commits_of (JStr ''repo''))\<lparr>payload := [(''page'', JNum 5)]\<rparr>))) \<and>
   map_of (initial_payload ((commits_of (JStr ''repo''))\<lparr>payload := [(''page'', JNum 5)]\<rparr>))
     ''page'' = Some (JNum 5) \<and>
   map_of (initial_payload ((commits_of (JStr ''repo''))\<lparr>payload := [(''page'', JNum 5)]\<rparr>))
     ''per_page'' = Some (JNum 100) \<and>
   paginate_data ((commits_of (JStr ''repo''))\<lparr>payload := [(''page'', JNum 5)]\<rparr>)
     (serve [JArr (sample 0 100), JArr (sample 100 130)])
     (Format ''repos/{0}/{1}/commits'' [JStr ''org'', JStr ''repo'']) [] =
   Some (Inr (sample 0 130),
     [(Format ''repos/{0}/{1}/commits'' [JStr ''org'', JStr ''repo''],
         [(''per_page'', JNum 100), (''page'', JNum 5)]),
      (Format ''repos/{0}/{1}/commits'' [JStr ''org'', JStr ''repo''],
         [(''per_page'', JNum 100), (''page'', JNum 6)])]) \<and>
   (\<exists>n. [(Format ''repos/{0}/{1}/commits'' [JStr ''org'', JStr ''repo''],
            [(''per_page'', JNum 100), (''page'', JNum 5)]),
         (Format ''repos/{0}/{1}/commits'' [JStr ''org'', JStr ''repo''],
            [(''per_page'', JNum 100), (''page'', JNum 6)])] =
        [] @ (Format ''repos/{0}/{1}/commits'' [JStr ''org'', JStr ''repo''],
              initial_payload ((commits_of (JStr ''repo''))\<lparr>payload := [(''page'', JNum 5)]\<rparr>)) #
          map (\<lambda>i. (Format ''repos/{0}/{1}/commits'' [JStr ''org'', JStr ''repo''],
                     later_payload
                       (initial_payload ((commits_of (JStr ''repo''))\<lparr>payload := [(''page'', JNum 5)]\<rparr>)) i))
            [1..<Suc n])"
proof -
  let ?self = "(commits_of (JStr ''repo''))\<lparr>payload := [(''page'', JNum 5)]\<rparr>"
  let ?ep = "Format ''repos/{0}/{1}/commits'' [JStr ''org'', JStr ''repo'']"
  let ?g = "serve [JArr (sample 0 100), JArr (sample 100 130)]"
  let ?log' = "[(?ep, [(''per_page'', JNum 100), (''page'', JNum 5)]),
               (?ep, [(''per_page'', JNum 100), (''page'', JNum 6)])]"
  have h: "distinct (map fst (payload ?self))" by simp
  have run: "paginate_data ?self ?g ?ep [] = Some (Inr (sample 0 130), ?log')"
    using sample_append [of 0 100 130]
    by (simp add: paginate_data_def initial_payload_def commits_of_def run_json_def serve_def
        py_extend_def retrieved_def py_mul_def paginate_loop.simps sample_length
        next_page_def add_one_def sample_filtered)
  from payload_overrides_defaults [OF h, where g = ?g and endpoint = ?ep and log = "[]"] run
  have "(\<forall>k. map_of (initial_payload ?self) k =
            (case map_of (payload ?self) k of
               Some v \<Rightarrow> Some v
             | None \<Rightarrow> map_of [(''per_page'', JNum 100), (''page'', JNum 1)] k))"
    and "\<exists>n. ?log' = [] @ (?ep, initial_payload ?self) #
               map (\<lambda>i. (?ep, later_payload (initial_payload ?self) i)) [1..<Suc n]"
    by blast+
  with h run show ?thesis by simp
qed

section \<open>Properties of the run\<close>

lemma retrieve_repos_append:
  "retrieve_repos self g (xs @ ys) out log =
     (case retrieve_repos self g xs out log of
        None \<Rightarrow> None
      | Some (out', log') \<Rightarrow> retrieve_repos self g ys out' log')"
  by (induction xs arbitrary: out log) (auto split: option.splits)

lemma retrieve_repos_acc:
  "retrieve_repos self g xs out log =
     (case retrieve_repos self g xs [] log of
        None \<Rightarrow> None
      | Some (out', log') \<Rightarrow> Some (out @ out', log'))"
proof (induction xs arbitrary: out log)
  case Nil
  then show ?case by simp
next
  case (Cons x xs)
  show ?case
  proof (cases "retrieve_data self g x log")
    case None
    then show ?thesis by simp
  next
    case (Some a)
    obtain records log1 where a: "a = (records, log1)" by (cases a)
    from Cons [of "out @ records" log1] Cons [of "[] @ records" log1] Some a show ?thesis
      by (simp split: option.splits)
  qed
qed

text \<open>
  C5. In the loop over the repositories, a unit whose endpoint cannot be resolved or
  whose pagination raises (the hook fails, the body is not what is expected, the filter
  raises) contributes no record: \<open>retrieve_data\<close> returns the empty result, and the
  output of the loop is the output of the units before it followed by the output of the
  units after it, which are processed in order from the log the failed unit left.
\<close>

theorem failed_unit_contributes_nothing:
  assumes "retrieve_repos self g before [] log = Some (out1, log1)"
    and "(methodMapper self (github_object self) (github_org self) repo = Inl err \<and> log2 = log1) \<or>
         (\<exists>endpoint. methodMapper self (github_object self) (github_org self) repo = Inr endpoint \<and>
            paginate_data self g endpoint log1 = Some (Inl err, log2))"
  shows "retrieve_data self g repo log1 = Some ([], log2) \<and>
         retrieve_repos self g (before @ repo # rest) [] log =
           (case retrieve_repos self g rest [] log2 of
              None \<Rightarrow> None
            | Some (out2, log3) \<Rightarrow> Some (out1 @ out2, log3))"
proof -
  from assms(2) have unit: "retrieve_data self g repo log1 = Some ([], log2)"
    by (auto simp: retrieve_data_def)
  have "retrieve_repos self g (before @ repo # rest) [] log =
        retrieve_repos self g (repo # rest) out1 log1"
    by (simp add: retrieve_repos_append assms(1))
  also have "\<dots> = retrieve_repos self g rest out1 log2"
    by (simp add: unit)
  also have "\<dots> = (case retrieve_repos self g rest [] log2 of
              None \<Rightarrow> None
            | Some (out2, log3) \<Rightarrow> Some (out1 @ out2, log3))"
    by (rule retrieve_repos_acc)
  finally show ?thesis using unit by simp
qed

lemma execute_all:
  assumes "github_object self \<notin> set [''members'', ''organizations'', ''repositories'']"
    and "github_repo self = JStr ''all''"
  shows "execute self g log =
     (case paginate_data self g (Format ''orgs/{0}/repos'' [github_org self]) log of
        None \<Rightarrow> None
      | Some (Inl err, log') \<Rightarrow> Some (Inl err, log')
      | Some (Inr listed, log') \<Rightarrow>
          (case names listed of
             Inl err \<Rightarrow> Some (Inl err, log')
           | Inr repos \<Rightarrow>
               (case retrieve_repos self g repos [] log' of
                  None \<Rightarrow> None
                | Some (out, log'') \<Rightarrow> Some (Inr out, log''))))"
  using assms by (simp add: execute_def methodMapper_def)

lemma listing_request:
  "paginate_data (commits_of repo) two_repos (Format ''orgs/{0}/repos'' [JStr ''org'']) [] =
     Some (Inr [JObj [(''name'', JStr ''r1'')], JObj [(''name'', JStr ''r2'')]],
           [(Format ''orgs/{0}/repos'' [JStr ''org''], [(''per_page'', JNum 100), (''page'', JNum 1)])])"
  by (simp add: paginate_data_def initial_payload_def commits_of_def run_json_def two_repos_def
      py_extend_def retrieved_def py_mul_def paginate_loop.simps
      filterMapper_def mapping_def process_entry_def)

text \<open>
  The example of the specification: \<open>github_repo = 'all'\<close>, the listing gives \<open>r1\<close> and
  \<open>r2\<close>, the request for the commits of \<open>r1\<close> fails. The run returns the two commits of
  \<open>r2\<close> after three requests.
\<close>

theorem failed_unit_contributes_nothing_witness:
  "retrieve_repos (commits_of (JStr ''all'')) two_repos [] []
     [(Format ''orgs/{0}/repos'' [JStr ''org''], [(''per_page'', JNum 100), (''page'', JNum 1)])] =
     Some ([], [(Format ''orgs/{0}/repos'' [JStr ''org''], [(''per_page'', JNum 100), (''page'', JNum 1)])]) \<and>
   methodMapper (commits_of (JStr ''all'')) ''commits'' (JStr ''org'') (JStr ''r1'') =
     Inr (Format ''repos/{0}/{1}/commits'' [JStr ''org'', JStr ''r1'']) \<and>
   paginate_data (commits_of (JStr ''all'')) two_repos
     (Format ''repos/{0}/{1}/commits'' [JStr ''org'', JStr ''r1''])
     [(Format ''orgs/{0}/repos'' [JStr ''org''], [(''per_page'', JNum 100), (''page'', JNum 1)])] =
     Some (Inl HTTPError,
       [(Format ''orgs/{0}/repos'' [JStr ''org''], [(''per_page'', JNum 100), (''page'', JNum 1)]),
        (Format ''repos/{0}/{1}/commits'' [JStr ''org'', JStr ''r1''],
           [(''per_page'', JNum 100), (''page'', JNum 1)])]) \<and>
   retrieve_repos (commits_of (JStr ''all'')) two_repos [JStr ''r1'', JStr ''r2''] []
     [(Format ''orgs/{0}/repos'' [JStr ''org''], [(''per_page'', JNum 100), (''page'', JNum 1)])] =
     Some (sample 0 2,
       [(Format ''orgs/{0}/repos'' [JStr ''org''], [(''per_page'', JNum 100), (''page'', JNum 1)]),
        (Format ''repos/{0}/{1}/commits'' [JStr ''org'', JStr ''r1''],
           [(''per_page'', JNum 100), (''page'', JNum 1)]),
        (Format ''repos/{0}/{1}/commits'' [JStr ''org'', JStr ''r2''],
           [(''per_page'', JNum 100), (''page'', JNum 1)])]) \<and>
   execute (commits_of (JStr ''all'')) two_repos [] =
     Some (Inr (sample 0 2),
       [(Format ''orgs/{0}/repos'' [JStr ''org''], [(''per_page'', JNum 100), (''page'', JNum 1)]),
        (Format ''repos/{0}/{1}/commits'' [JStr ''org'', JStr ''r1''],
           [(''per_page'', JNum 100), (''page'', JNum 1)]),
        (Format ''repos/{0}/{1}/commits'' [JStr ''org'', JStr ''r2''],
           [(''per_page'', JNum 100), (''page'', JNum 1)])])"
proof -
  let ?self = "commits_of (JStr ''all'')"
  let ?l = "(Format ''orgs/{0}/repos'' [JStr ''org''], [(''per_page'', JNum 100), (''page'', JNum 1)])"
  let ?q1 = "(Format ''repos/{0}/{1}/commits'' [JStr ''org'', JStr ''r1''],
           [(''per_page'', JNum 100), (''page'', JNum 1)])"
  let ?q2 = "(Format ''repos/{0}/{1}/commits'' [JStr ''org'', JStr ''r2''],
           [(''per_page'', JNum 100), (''page'', JNum 1)])"
  have h1: "retrieve_repos ?self two_repos [] [] [?l] = Some ([], [?l])" by simp
  have mm: "methodMapper ?self (github_object ?self) (github_org ?self) (JStr ''r1'') =
     Inr (Format ''repos/{0}/{1}/commits'' [JStr ''org'', JStr ''r1''])"
    by (simp add: methodMapper_def commits_of_def)
  have pg: "paginate_data ?self two_repos (Format ''repos/{0}/{1}/commits'' [JStr ''org'', JStr ''r1'']) [?l] =
     Some (Inl HTTPError, [?l, ?q1])"
    by (simp add: paginate_data_def initial_payload_def commits_of_def run_json_def two_repos_def)
  from mm pg have h2: "(methodMapper ?self (github_object ?self) (github_org ?self) (JStr ''r1'') = Inl HTTPError \<and> [?l, ?q1] = [?l]) \<or>
         (\<exists>endpoint. methodMapper ?self (github_object ?self) (github_org ?self) (JStr ''r1'') = Inr endpoint \<and>
            paginate_data ?self two_repos endpoint [?l] = Some (Inl HTTPError, [?l, ?q1]))"
    by blast
  have two: "sample 0 2 = [JObj [(''sha'', JNum 0)], JObj [(''sha'', JNum 1)]]"
    by (simp add: sample_def upt_rec)
  have r2: "retrieve_repos ?self two_repos [JStr ''r2''] [] [?l, ?q1] = Some (sample 0 2, [?l, ?q1, ?q2])"
    by (simp add: retrieve_data_def methodMapper_def paginate_data_def initial_payload_def
        commits_of_def run_json_def two_repos_def py_extend_def retrieved_def py_mul_def
        paginate_loop.simps two filterMapper_def mapping_def process_entry_def Let_def)
  from failed_unit_contributes_nothing [OF h1 h2, of "[JStr ''r2'']"] r2
  have units: "retrieve_repos ?self two_repos [JStr ''r1'', JStr ''r2''] [] [?l] =
      Some (sample 0 2, [?l, ?q1, ?q2])"
    by simp
  have "execute ?self two_repos [] = Some (Inr (sample 0 2), [?l, ?q1, ?q2])"
  proof -
    have org: "github_org ?self = JStr ''org''" by (simp add: commits_of_def)
    have nm: "names [JObj [(''name'', JStr ''r1'')], JObj [(''name'', JStr ''r2'')]] =
        Inr [JStr ''r1'', JStr ''r2'']"
      by simp
    have "execute ?self two_repos [] =
     (case paginate_data ?self two_repos (Format ''orgs/{0}/repos'' [github_org ?self]) [] of
        None \<Rightarrow> None
      | Some (Inl err, log') \<Rightarrow> Some (Inl err, log')
      | Some (Inr listed, log') \<Rightarrow>
          (case names listed of
             Inl err \<Rightarrow> Some (Inl err, log')
           | Inr repos \<Rightarrow>
               (case retrieve_repos ?self two_repos repos [] log' of
                  None \<Rightarrow> None
                | Some (out, log'') \<Rightarrow> Some (Inr out, log''))))"
      by (rule execute_all) (simp_all add: commits_of_def)
    then show ?thesis
      by (simp only: org listing_request option.case prod.case sum.case nm units)
  qed
  with h1 mm pg units show ?thesis by (simp add: commits_of_def)
qed

lemma lower_supported: "s \<in> set supported \<Longrightarrow> lower s = s"
  by (auto simp: supported_def lower_def lower_char_def)

lemma methodMapper_unsupported:
  "obj \<notin> set supported \<Longrightarrow> methodMapper self obj org repo = Inl KeyError"
  by (simp add: methodMapper_def supported_def)

lemma retrieve_data_unsupported:
  "github_object self \<notin> set supported \<Longrightarrow> retrieve_data self g repo log = Some ([], log)"
  by (simp add: retrieve_data_def methodMapper_unsupported)

lemma retrieve_repos_unsupported:
  "github_object self \<notin> set supported \<Longrightarrow> retrieve_repos self g repos out log = Some (out, log)"
  by (induction repos) (simp_all add: retrieve_data_unsupported)

lemma execute_not_all:
  assumes "github_repo self \<noteq> JStr ''all''"
  shows "execute self g log =
     (case (if github_object self \<notin> set [''members'', ''organizations'', ''repositories'']
            then (case github_repo self of
                    JArr repos \<Rightarrow> retrieve_repos self g repos [] log
                  | repo \<Rightarrow> retrieve_data self g repo log)
            else retrieve_data self g (github_repo self) log) of
        None \<Rightarrow> None
      | Some (out, log') \<Rightarrow> Some (Inr out, log'))"
  using assms by (cases "github_repo self") (simp_all add: execute_def)

text \<open>
  C6, as amended. An object whose name in lower case is not one of the eight supported
  names is rejected by the constructor, and a task with it fails with no request made:
  the log is the one the task started with.
\<close>

theorem unsupported_object_rejected:
  assumes "lower obj \<notin> set supported"
  shows "init org obj repo pl = Inl UnsupportedObject \<and>
         run_task org obj repo pl g log = Some (Inl UnsupportedObject, log)"
  using assms by (simp add: init_def run_task_def)

text \<open>The object \<open>users\<close>.\<close>

theorem unsupported_object_rejected_witness:
  "lower ''users'' \<notin> set supported \<and>
   init (JStr ''org'') ''users'' JNull [] = Inl UnsupportedObject \<and>
   run_task (JStr ''org'') ''users'' JNull [] (backend (sample 0 3)) [] =
     Some (Inl UnsupportedObject, [])"
proof -
  have h: "lower ''users'' \<notin> set supported"
    by (simp add: lower_def lower_char_def supported_def)
  from unsupported_object_rejected [OF h] h show ?thesis by blast
qed

text \<open>
  C6, as it is stated, fails: \<open>Commits\<close> is not one of the eight names, and the constructor
  accepts it.
\<close>

theorem mixed_case_object_accepted_counterexample:
  "''Commits'' \<notin> set supported \<and>
   init (JStr ''org'') ''Commits'' (JStr ''repo'') [] =
     Inr \<lparr>github_org = JStr ''org'', github_repo = JStr ''repo'', github_object = ''Commits'',
          payload = []\<rparr>"
  by (simp add: init_def lower_def lower_char_def supported_def)

text \<open>
  C9, as amended. For an object that is a supported name written with an upper-case
  letter: the constructor accepts it; \<open>methodMapper\<close> raises \<open>KeyError\<close> for it;
  \<open>retrieve_data\<close> returns the empty result without a request; a task whose repository
  is not \<open>'all'\<close> ends with the empty output and no request. With the repository \<open>'all'\<close>
  the list of the repositories is fetched first: the task ends with the empty output
  when that listing succeeds, and with the listing's exception (or never) otherwise.
\<close>

theorem uppercase_object_yields_empty_output:
  assumes "lower obj \<in> set supported" and "obj \<noteq> lower obj"
  shows "init org obj repo pl =
           Inr \<lparr>github_org = org, github_repo = repo, github_object = obj, payload = pl\<rparr> \<and>
         methodMapper \<lparr>github_org = org, github_repo = repo, github_object = obj, payload = pl\<rparr>
           obj org r = Inl KeyError \<and>
         retrieve_data \<lparr>github_org = org, github_repo = repo, github_object = obj, payload = pl\<rparr>
           g r log = Some ([], log) \<and>
         (repo \<noteq> JStr ''all'' \<longrightarrow> run_task org obj repo pl g log = Some (Inr [], log)) \<and>
         (repo = JStr ''all'' \<longrightarrow>
            run_task org obj repo pl g log =
              (case paginate_data
                      \<lparr>github_org = org, github_repo = repo, github_object = obj, payload = pl\<rparr>
                      g (Format ''orgs/{0}/repos'' [org]) log of
                 None \<Rightarrow> None
               | Some (Inl err, log') \<Rightarrow> Some (Inl err, log')
               | Some (Inr listed, log') \<Rightarrow>
                   (case names listed of
                      Inl err \<Rightarrow> Some (Inl err, log')
                    | Inr repos \<Rightarrow> Some (Inr [], log'))))"
proof -
  define self where
    "self = \<lparr>github_org = org, github_repo = repo, github_object = obj, payload = pl\<rparr>"
  from assms have uns: "obj \<notin> set supported"
    using lower_supported [of obj] by auto
  then have uns': "github_object self \<notin> set supported" by (simp add: self_def)
  from uns have scoped: "github_object self \<notin> set [''members'', ''organizations'', ''repositories'']"
    by (auto simp: self_def supported_def)
  from assms(1) have i: "init org obj repo pl = Inr self" by (simp add: init_def self_def)
  have m: "methodMapper self obj org r = Inl KeyError"
    by (rule methodMapper_unsupported [OF uns])
  have d: "retrieve_data self g r log = Some ([], log)"
    by (rule retrieve_data_unsupported [OF uns'])
  have one: "repo \<noteq> JStr ''all'' \<longrightarrow> run_task org obj repo pl g log = Some (Inr [], log)"
  proof
    assume "repo \<noteq> JStr ''all''"
    then have "github_repo self \<noteq> JStr ''all''" by (simp add: self_def)
    from execute_not_all [OF this, of g log] scoped
    have "execute self g log = Some (Inr [], log)"
      by (simp add: retrieve_data_unsupported [OF uns'] retrieve_repos_unsupported [OF uns']
          split: json.splits)
    with i show "run_task org obj repo pl g log = Some (Inr [], log)"
      by (simp add: run_task_def)
  qed
  have all: "repo = JStr ''all'' \<longrightarrow>
            run_task org obj repo pl g log =
              (case paginate_data self g (Format ''orgs/{0}/repos'' [org]) log of
                 None \<Rightarrow> None
               | Some (Inl err, log') \<Rightarrow> Some (Inl err, log')
               | Some (Inr listed, log') \<Rightarrow>
                   (case names listed of
                      Inl err \<Rightarrow> Some (Inl err, log')
                    | Inr repos \<Rightarrow> Some (Inr [], log')))"
  proof
    assume "repo = JStr ''all''"
    then have a: "github_repo self = JStr ''all''" by (simp add: self_def)
    have org: "github_org self = org" by (simp add: self_def)
    from i have "run_task org obj repo pl g log = execute self g log"
      by (simp add: run_task_def)
    also have "\<dots> = (case paginate_data self g (Format ''orgs/{0}/repos'' [org]) log of
                 None \<Rightarrow> None
               | Some (Inl err, log') \<Rightarrow> Some (Inl err, log')
               | Some (Inr listed, log') \<Rightarrow>
                   (case names listed of
                      Inl err \<Rightarrow> Some (Inl err, log')
                    | Inr repos \<Rightarrow> Some (Inr [], log')))"
      by (simp add: execute_all [OF scoped a] org retrieve_repos_unsupported [OF uns']
          split: option.splits sum.splits)
    finally show "run_task org obj repo pl g log =
              (case paginate_data self g (Format ''orgs/{0}/repos'' [org]) log of
                 None \<Rightarrow> None
               | Some (Inl err, log') \<Rightarrow> Some (Inl err, log')
               | Some (Inr listed, log') \<Rightarrow>
                   (case names listed of
                      Inl err \<Rightarrow> Some (Inl err, log')
                    | Inr repos \<Rightarrow> Some (Inr [], log')))" .
  qed
  from i m d one all show ?thesis unfolding self_def by blast
qed

text \<open>
  C9, as it is stated, fails: with the repository \<open>'all'\<close> and a server that answers no
  request, the task of the object \<open>Commits\<close> ends with the exception of the listing.
\<close>

theorem uppercase_object_listing_fails_counterexample:
  "run_task (JStr ''org'') ''Commits'' (JStr ''all'') [] (serve []) [] =
     Some (Inl HTTPError,
       [(Format ''orgs/{0}/repos'' [JStr ''org''], [(''per_page'', JNum 100), (''page'', JNum 1)])])"
  by (simp add: run_task_def init_def lower_def lower_char_def supported_def execute_def
      methodMapper_def paginate_data_def initial_payload_def run_json_def serve_def)

text \<open>The object \<open>Commits\<close>, for one repository and for \<open>'all'\<close>.\<close>

theorem uppercase_object_yields_empty_output_witness:
  "lower ''Commits'' \<in> set supported \<and> ''Commits'' \<noteq> lower ''Commits'' \<and>
   init (JStr ''org'') ''Commits'' (JStr ''repo'') [] =
     Inr \<lparr>github_org = JStr ''org'', github_repo = JStr ''repo'', github_object = ''Commits'',
          payload = []\<rparr> \<and>
   methodMapper
     \<lparr>github_org = JStr ''org'', github_repo = JStr ''repo'', github_object = ''Commits'',
        payload = []\<rparr> ''Commits'' (JStr ''org'') (JStr ''repo'') = Inl KeyError \<and>
   run_task (JStr ''org'') ''Commits'' (JStr ''repo'') [] (backend (sample 0 3)) [] = Some (Inr [], []) \<and>
   run_task (JStr ''org'') ''Commits'' (JStr ''all'') [] two_repos [] =
     Some (Inr [],
       [(Format ''orgs/{0}/repos'' [JStr ''org''], [(''per_page'', JNum 100), (''page'', JNum 1)])])"
proof -
  have h1: "lower ''Commits'' \<in> set supported" and h2: "''Commits'' \<noteq> lower ''Commits''"
    by (simp_all add: lower_def lower_char_def supported_def)
  have ne: "JStr ''repo'' \<noteq> JStr ''all''" by simp
  have listing: "paginate_data
      \<lparr>github_org = JStr ''org'', github_repo = JStr ''all'', github_object = ''Commits'', payload = []\<rparr>
      two_repos (Format ''orgs/{0}/repos'' [JStr ''org'']) [] =
     Some (Inr [JObj [(''name'', JStr ''r1'')], JObj [(''name'', JStr ''r2'')]],
           [(Format ''orgs/{0}/repos'' [JStr ''org''], [(''per_page'', JNum 100), (''page'', JNum 1)])])"
    by (simp add: paginate_data_def initial_payload_def run_json_def two_repos_def
      py_extend_def retrieved_def py_mul_def paginate_loop.simps
      filterMapper_def mapping_def process_entry_def)
  from uppercase_object_yields_empty_output [OF h1 h2, of "JStr ''org''" "JStr ''repo''" "[]"
      "JStr ''repo''" "backend (sample 0 3)" "[]"] ne
  have a: "init (JStr ''org'') ''Commits'' (JStr ''repo'') [] =
     Inr \<lparr>github_org = JStr ''org'', github_repo = JStr ''repo'', github_object = ''Commits'',
          payload = []\<rparr>"
    and b: "methodMapper
     \<lparr>github_org = JStr ''org'', github_repo = JStr ''repo'', github_object = ''Commits'',
        payload = []\<rparr> ''Commits'' (JStr ''org'') (JStr ''repo'') = Inl KeyError"
    and c: "run_task (JStr ''org'') ''Commits'' (JStr ''repo'') [] (backend (sample 0 3)) [] = Some (Inr [], [])"
    by blast+
  from uppercase_object_yields_empty_output [OF h1 h2, of "JStr ''org''" "JStr ''all''" "[]"
      "JStr ''repo''" two_repos "[]"]
  have "run_task (JStr ''org'') ''Commits'' (JStr ''all'') [] two_repos [] =
     Some (Inr [],
       [(Format ''orgs/{0}/repos'' [JStr ''org''], [(''per_page'', JNum 100), (''page'', JNum 1)])])"
    by (simp add: listing)
  with h1 h2 a b c show ?thesis by blast
qed

text \<open>
  C10. With the repository \<open>'all'\<close> and an object that has repositories, an exception of
  the pagination that lists the repositories, or of the extraction of their names, leaves
  \<open>execute\<close> with the log as it was at that point; once the names are there, no exception
  leaves \<open>execute\<close>.
\<close>

theorem listing_failure_aborts_run:
  assumes "github_object self \<notin> set [''members'', ''organizations'', ''repositories'']"
    and "github_repo self = JStr ''all''"
  shows "(\<forall>err log'.
            paginate_data self g (Format ''orgs/{0}/repos'' [github_org self]) log =
              Some (Inl err, log') \<longrightarrow>
            execute self g log = Some (Inl err, log')) \<and>
         (\<forall>listed log' err.
            paginate_data self g (Format ''orgs/{0}/repos'' [github_org self]) log =
              Some (Inr listed, log') \<and> names listed = Inl err \<longrightarrow>
            execute self g log = Some (Inl err, log')) \<and>
         (\<forall>listed log' repos.
            paginate_data self g (Format ''orgs/{0}/repos'' [github_org self]) log =
              Some (Inr listed, log') \<and> names listed = Inr repos \<longrightarrow>
            (\<forall>err log''. execute self g log \<noteq> Some (Inl err, log'')))"
  by (auto simp: execute_all [OF assms] split: option.splits)

text \<open>A server that answers no request.\<close>

theorem listing_failure_aborts_run_witness:
  "github_object (commits_of (JStr ''all'')) \<notin> set [''members'', ''organizations'', ''repositories''] \<and>
   github_repo (commits_of (JStr ''all'')) = JStr ''all'' \<and>
   paginate_data (commits_of (JStr ''all'')) (serve [])
     (Format ''orgs/{0}/repos'' [github_org (commits_of (JStr ''all''))]) [] =
     Some (Inl HTTPError,
       [(Format ''orgs/{0}/repos'' [JStr ''org''], [(''per_page'', JNum 100), (''page'', JNum 1)])]) \<and>
   execute (commits_of (JStr ''all'')) (serve []) [] =
     Some (Inl HTTPError,
       [(Format ''orgs/{0}/repos'' [JStr ''org''], [(''per_page'', JNum 100), (''page'', JNum 1)])])"
proof -
  let ?self = "commits_of (JStr ''all'')"
  let ?l = "[(Format ''orgs/{0}/repos'' [JStr ''org''], [(''per_page'', JNum 100), (''page'', JNum 1)])]"
  have h1: "github_object ?self \<notin> set [''members'', ''organizations'', ''repositories'']"
    and h2: "github_repo ?self = JStr ''all''"
    by (simp_all add: commits_of_def)
  have p: "paginate_data ?self (serve []) (Format ''orgs/{0}/repos'' [github_org ?self]) [] =
     Some (Inl HTTPError, ?l)"
    by (simp add: paginate_data_def initial_payload_def run_json_def serve_def commits_of_def)
  from listing_failure_aborts_run [OF h1 h2, of "serve []" "[]"] p
  have "execute ?self (serve []) [] = Some (Inl HTTPError, ?l)" by blast
  with h1 h2 p show ?thesis by blast
qed

section \<open>Filtering page by page\<close>

lemma filter_all_append_Inr:
  "filter_all obj (xs @ ys) = Inr zs \<longleftrightarrow>
   (\<exists>xs' ys'. filter_all obj xs = Inr xs' \<and> filter_all obj ys = Inr ys' \<and> zs = xs' @ ys')"
  by (auto simp: filter_all_append split: sum.splits)

lemma loop_to_per_page:
  assumes "paginate_loop g endpoint fp response out log = Some y"
  shows "\<forall>out' log'. y = (Inr out', log') \<longrightarrow>
           (\<exists>rest. out' = out @ rest) \<and>
           (\<forall>fo fout. filter_all obj out = Inr fo \<and> filter_all obj out' = Inr fout \<longrightarrow>
              paginate_loop_per_page obj g endpoint fp response fo log = Some (Inr fout, log'))"
  using assms
proof (induction rule: paginate_loop.raw_induct [rotated 1, consumes 1, case_names step])
  case (step loop g endpoint fp response out log y)
  note IH = step(1) and body = step(2)
  show ?case
  proof (intro allI impI)
    fix out' log' assume y: "y = (Inr out', log')"
    from body y consider
        (stop) n where "py_len response = Inr n" "n \<noteq> 100" "out' = out" "log' = log"
      | (go) fp' response' items where "py_len response = Inr 100" "next_page fp = Inr fp'"
          "g log (endpoint, fp') = Inr response'" "\<exists>x. retrieved fp' = Inr x"
          "py_iter response' = Inr items"
          "loop g endpoint fp' response' (out @ items) (log @ [(endpoint, fp')]) = Some y"
      by (auto simp: run_json_def py_extend_def split: sum.splits if_splits prod.splits)
    then show "(\<exists>rest. out' = out @ rest) \<and>
           (\<forall>fo fout. filter_all obj out = Inr fo \<and> filter_all obj out' = Inr fout \<longrightarrow>
              paginate_loop_per_page obj g endpoint fp response fo log = Some (Inr fout, log'))"
    proof cases
      case stop
      then show ?thesis
        by (subst paginate_loop_per_page.simps) auto
    next
      case go
      note IH [OF go(6), THEN spec, THEN spec, THEN mp, OF y]
      then obtain rest where rest: "out' = (out @ items) @ rest"
        and ih: "\<forall>fo fout. filter_all obj (out @ items) = Inr fo \<and> filter_all obj out' = Inr fout \<longrightarrow>
              paginate_loop_per_page obj g endpoint fp' response' fo (log @ [(endpoint, fp')]) =
                Some (Inr fout, log')"
        by blast
      have "\<forall>fo fout. filter_all obj out = Inr fo \<and> filter_all obj out' = Inr fout \<longrightarrow>
              paginate_loop_per_page obj g endpoint fp response fo log = Some (Inr fout, log')"
      proof (intro allI impI)
        fix fo fout assume f: "filter_all obj out = Inr fo \<and> filter_all obj out' = Inr fout"
        with rest obtain fitems where fi: "filter_all obj items = Inr fitems"
          by (auto simp: filter_all_append_Inr)
        with f have "filter_all obj (out @ items) = Inr (fo @ fitems)"
          by (simp add: filter_all_append_Inr)
        with ih f have "paginate_loop_per_page obj g endpoint fp' response' (fo @ fitems)
            (log @ [(endpoint, fp')]) = Some (Inr fout, log')"
          by blast
        with go(1-5) fi
        show "paginate_loop_per_page obj g endpoint fp response fo log = Some (Inr fout, log')"
          by (subst paginate_loop_per_page.simps)
            (auto simp: run_json_def extend_filtered_def)
      qed
      with rest show ?thesis by auto
    qed
  qed
qed

lemma per_page_to_loop:
  assumes "paginate_loop_per_page obj g endpoint fp response fo log = Some y"
  shows "\<forall>fout log' out. y = (Inr fout, log') \<and> filter_all obj out = Inr fo \<longrightarrow>
           (\<exists>out'. paginate_loop g endpoint fp response out log = Some (Inr out', log') \<and>
                   filter_all obj out' = Inr fout)"
  using assms
proof (induction rule: paginate_loop_per_page.raw_induct [rotated 1, consumes 1, case_names step])
  case (step loop obj g endpoint fp response fo log y)
  note IH = step(1) and body = step(2)
  show ?case
  proof (intro allI impI)
    fix fout log' out assume a: "y = (Inr fout, log') \<and> filter_all obj out = Inr fo"
    with body consider
        (stop) n where "py_len response = Inr n" "n \<noteq> 100" "fout = fo" "log' = log"
      | (go) fp' response' items fitems where "py_len response = Inr 100" "next_page fp = Inr fp'"
          "g log (endpoint, fp') = Inr response'" "\<exists>x. retrieved fp' = Inr x"
          "py_iter response' = Inr items" "filter_all obj items = Inr fitems"
          "loop obj g endpoint fp' response' (fo @ fitems) (log @ [(endpoint, fp')]) = Some y"
      by (auto simp: run_json_def extend_filtered_def split: sum.splits if_splits prod.splits)
    then show "\<exists>out'. paginate_loop g endpoint fp response out log = Some (Inr out', log') \<and>
                   filter_all obj out' = Inr fout"
    proof cases
      case stop
      with a show ?thesis
        by (subst paginate_loop.simps) auto
    next
      case go
      from a go(6) have "filter_all obj (out @ items) = Inr (fo @ fitems)"
        by (simp add: filter_all_append_Inr)
      with a have "y = (Inr fout, log') \<and> filter_all obj (out @ items) = Inr (fo @ fitems)"
        by simp
      note IH [OF go(7), THEN spec, THEN spec, THEN spec, THEN mp, OF this]
      then obtain out' where
        "paginate_loop g endpoint fp' response' (out @ items) (log @ [(endpoint, fp')]) =
           Some (Inr out', log')" and "filter_all obj out' = Inr fout"
        by blast
      with go(1-5) show ?thesis
        by (subst paginate_loop.simps) (auto simp: run_json_def py_extend_def)
    qed
  qed
qed

text \<open>
  C7. The source filters the accumulated records once, after the loop;
  \<open>paginate_data_per_page\<close> filters the records of each page when the page arrives. The
  two return the same records: one returns a record sequence (with a log of requests)
  exactly when the other returns that sequence (with that log).
\<close>

theorem per_page_filtering_same_output:
  "paginate_data self g endpoint log = Some (Inr out, log') \<longleftrightarrow>
   paginate_data_per_page self g endpoint log = Some (Inr out, log')"
proof
  assume code: "paginate_data self g endpoint log = Some (Inr out, log')"
  define fp where "fp = initial_payload self"
  define log1 where "log1 = log @ [(endpoint, fp)]"
  from code obtain response items raw where
    r: "g log (endpoint, fp) = Inr response" and it: "py_iter response = Inr items"
    and ret: "\<exists>x. retrieved fp = Inr x"
    and loop: "paginate_loop g endpoint fp response items log1 = Some (Inr raw, log')"
    and f: "filter_all (github_object self) raw = Inr out"
    unfolding paginate_data_def Let_def run_json_def fp_def [symmetric] log1_def [symmetric]
    by (auto simp: py_extend_def split: sum.splits option.splits prod.splits)
  note loop_to_per_page [OF loop, of "github_object self", THEN spec, THEN spec, THEN mp, OF refl]
  then obtain rest where
    rest: "raw = items @ rest"
    and pp: "\<forall>fo fout. filter_all (github_object self) items = Inr fo \<and>
              filter_all (github_object self) raw = Inr fout \<longrightarrow>
              paginate_loop_per_page (github_object self) g endpoint fp response fo log1 =
                Some (Inr fout, log')"
    by blast
  from rest f obtain fo where fo: "filter_all (github_object self) items = Inr fo"
    by (auto simp: filter_all_append_Inr)
  with pp f have "paginate_loop_per_page (github_object self) g endpoint fp response fo log1 =
                Some (Inr out, log')"
    by blast
  with r it ret fo show "paginate_data_per_page self g endpoint log = Some (Inr out, log')"
    unfolding paginate_data_per_page_def Let_def run_json_def fp_def [symmetric] log1_def [symmetric]
    by (auto simp: extend_filtered_def)
next
  assume per_page: "paginate_data_per_page self g endpoint log = Some (Inr out, log')"
  define fp where "fp = initial_payload self"
  define log1 where "log1 = log @ [(endpoint, fp)]"
  from per_page obtain response items fo where
    r: "g log (endpoint, fp) = Inr response" and it: "py_iter response = Inr items"
    and fo: "filter_all (github_object self) items = Inr fo"
    and ret: "\<exists>x. retrieved fp = Inr x"
    and loop: "paginate_loop_per_page (github_object self) g endpoint fp response fo log1 =
        Some (Inr out, log')"
    unfolding paginate_data_per_page_def Let_def run_json_def fp_def [symmetric] log1_def [symmetric]
    by (auto simp: extend_filtered_def split: sum.splits option.splits prod.splits)
  note per_page_to_loop [OF loop, THEN spec, THEN spec, THEN spec, THEN mp, OF conjI [OF refl fo]]
  then obtain raw where
    "paginate_loop g endpoint fp response items log1 = Some (Inr raw, log')"
    and "filter_all (github_object self) raw = Inr out"
    by blast
  with r it ret show "paginate_data self g endpoint log = Some (Inr out, log')"
    unfolding paginate_data_def Let_def run_json_def fp_def [symmetric] log1_def [symmetric]
    by (auto simp: py_extend_def)
qed


text \<open>A full page of commits and a second page with the commit of the example.\<close>

theorem per_page_filtering_same_output_witness:
  "paginate_data (commits_of (JStr ''repo''))
     (serve [JArr (sample 0 100), JArr [commit_example]])
     (Format ''repos/{0}/{1}/commits'' [JStr ''org'', JStr ''repo'']) [] =
   Some (Inr (sample 0 100 @
              [JObj [(''sha'', JStr ''abc''), (''committer'', JNull), (''author_id'', JNum 7)]]),
     [(Format ''repos/{0}/{1}/commits'' [JStr ''org'', JStr ''repo''],
         [(''per_page'', JNum 100), (''page'', JNum 1)]),
      (Format ''repos/{0}/{1}/commits'' [JStr ''org'', JStr ''repo''],
         [(''per_page'', JNum 100), (''page'', JNum 2)])]) \<and>
   paginate_data_per_page (commits_of (JStr ''repo''))
     (serve [JArr (sample 0 100), JArr [commit_example]])
     (Format ''repos/{0}/{1}/commits'' [JStr ''org'', JStr ''repo'']) [] =
   Some (Inr (sample 0 100 @
              [JObj [(''sha'', JStr ''abc''), (''committer'', JNull), (''author_id'', JNum 7)]]),
     [(Format ''repos/{0}/{1}/commits'' [JStr ''org'', JStr ''repo''],
         [(''per_page'', JNum 100), (''page'', JNum 1)]),
      (Format ''repos/{0}/{1}/commits'' [JStr ''org'', JStr ''repo''],
         [(''per_page'', JNum 100), (''page'', JNum 2)])])"
proof -
  have ex: "filter_all ''commits'' [commit_example] =
      Inr [JObj [(''sha'', JStr ''abc''), (''committer'', JNull), (''author_id'', JNum 7)]]"
    by (simp add: commit_example_def filterMapper_def mapping_def process_entry_def retain_item_def)
  have code: "paginate_data (commits_of (JStr ''repo''))
     (serve [JArr (sample 0 100), JArr [commit_example]])
     (Format ''repos/{0}/{1}/commits'' [JStr ''org'', JStr ''repo'']) [] =
   Some (Inr (sample 0 100 @
              [JObj [(''sha'', JStr ''abc''), (''committer'', JNull), (''author_id'', JNum 7)]]),
     [(Format ''repos/{0}/{1}/commits'' [JStr ''org'', JStr ''repo''],
         [(''per_page'', JNum 100), (''page'', JNum 1)]),
      (Format ''repos/{0}/{1}/commits'' [JStr ''org'', JStr ''repo''],
         [(''per_page'', JNum 100), (''page'', JNum 2)])])"
    by (simp add: paginate_data_def initial_payload_def commits_of_def run_json_def serve_def
        py_extend_def retrieved_def py_mul_def paginate_loop.simps sample_length
        next_page_def add_one_def filter_all_append sample_filtered ex [simplified])
  from code per_page_filtering_same_output [THEN iffD1, OF code] show ?thesis by (rule conjI)
qed

end
